theory Spec2Isabelle
  imports Complex_Main "HOL-Library.Word"
begin

section \<open>The vector-database benchmark harness (tools/vectordb_bench/vectordb_bench.cpp)\<close>

text \<open>
  The harness reads three dataset files, creates a table and an index, inserts every base
  vector through textual statements, runs one query per query vector and scores the answers
  against the ground truth. The search engine, the result writer and the C++ standard
  library are not part of that file; the engine appears below as a parameter, the library
  calls (\<^verbatim>\<open>fread\<close>, \<^verbatim>\<open>memmove\<close>, \<^verbatim>\<open>std::to_string\<close>) as their documented behaviour.
\<close>

subsection \<open>Machine types\<close>

text \<open>
  \<^verbatim>\<open>size_t\<close> is the 64-bit unsigned type of the platform the tool is built for (its
  \<^verbatim>\<open>printf\<close> calls print \<^verbatim>\<open>size_t\<close> with \<^verbatim>\<open>%ld\<close>): \<open>+\<close> wraps around at \<open>2 ^ 64\<close>.
  Values of the C++ type \<^verbatim>\<open>int\<close> that are only stored and compared are HOL integers.
  Sizes and indices of files and blocks are natural numbers: each is bounded by the size of
  a file or block that exists, so none of them can wrap.
\<close>

type_synonym size_t = "64 word"

subsection \<open>Class Metric\<close>

text \<open>
  The four private counters \<^verbatim>\<open>n_1_\<close>, \<^verbatim>\<open>n_10_\<close>, \<^verbatim>\<open>n_100_\<close> and \<^verbatim>\<open>n_\<close>; the last is
  called \<open>n_total\<close> here. The defaulted constructor zeroes all four.
\<close>

record Metric =
  n_1 :: size_t
  n_10 :: size_t
  n_100 :: size_t
  n_total :: size_t

definition Metric_init :: Metric where
  "Metric_init = \<lparr>n_1 = 0, n_10 = 0, n_100 = 0, n_total = 0\<rparr>"

text \<open>The body of \<^verbatim>\<open>if (res[i] == target) { ... break; }\<close>: three independent tests of the rank.\<close>

definition count_hit :: "nat \<Rightarrow> Metric \<Rightarrow> Metric" where
  "count_hit i m =
     (let m1 = (if i < 1 then m\<lparr>n_1 := n_1 m + 1\<rparr> else m);
          m2 = (if i < 10 then m1\<lparr>n_10 := n_10 m1 + 1\<rparr> else m1);
          m3 = (if i < 100 then m2\<lparr>n_100 := n_100 m2 + 1\<rparr> else m2)
      in m3)"

text \<open>
  The loop \<^verbatim>\<open>for (size_t i = 0; i < res.size(); ++i)\<close>, entered at index \<open>i\<close>; the
  \<^verbatim>\<open>break\<close> is the branch without a recursive call.
\<close>

function scan :: "int list \<Rightarrow> int \<Rightarrow> nat \<Rightarrow> Metric \<Rightarrow> Metric" where
  "scan res target i m =
     (if i < length res
      then (if res ! i = target then count_hit i m else scan res target (i + 1) m)
      else m)"
  by pat_completeness auto
termination
  by (relation "measure (\<lambda>(res, target, i, m). length res - i)") auto

declare scan.simps [simp del]

text \<open>
  \<^verbatim>\<open>AddQueryResult(res, gt)\<close>. The pointer \<open>gt\<close> is modelled by the list of the integers
  stored from its address to the end of its array; reading \<^verbatim>\<open>gt[0]\<close> past the end is
  undefined in C++ and \<open>None\<close> here.
\<close>

definition AddQueryResult :: "Metric \<Rightarrow> int list \<Rightarrow> int list \<Rightarrow> Metric option" where
  "AddQueryResult m res gt =
     (case gt of
        [] \<Rightarrow> None
      | target # _ \<Rightarrow> Some (scan res target 0 (m\<lparr>n_total := n_total m + 1\<rparr>)))"

subsection \<open>Reporting\<close>

text \<open>
  \<^verbatim>\<open>Show\<close> prints three ratios \<^verbatim>\<open>n_k_ / static_cast<float>(n_)\<close>. Both operands are
  converted to \<^verbatim>\<open>float\<close> and divided by the rules of IEEE 754: a zero divisor gives NaN
  for a zero dividend and plus infinity for a positive one. The rounded value of a
  quotient with a non-zero divisor is not computed here: \<open>Ratio a b\<close> stands for it.
\<close>

datatype quotient = NaN | PosInf | Ratio nat nat

definition fdiv :: "size_t \<Rightarrow> size_t \<Rightarrow> quotient" where
  "fdiv a b = (if b = 0 then (if a = 0 then NaN else PosInf) else Ratio (unat a) (unat b))"

text \<open>The three lines that \<^verbatim>\<open>Show\<close> prints, each as its label and the value formatted.\<close>

definition Show :: "Metric \<Rightarrow> (string \<times> quotient) list" where
  "Show m =
     [(''R@1'', fdiv (n_1 m) (n_total m)),
      (''R@10'', fdiv (n_10 m) (n_total m)),
      (''R@100'', fdiv (n_100 m) (n_total m))]"

text \<open>A sequence of calls of \<^verbatim>\<open>AddQueryResult\<close> on one object, each with its two arguments.\<close>

fun AddQueryResults :: "Metric \<Rightarrow> (int list \<times> int list) list \<Rightarrow> Metric option" where
  "AddQueryResults m [] = Some m"
| "AddQueryResults m ((res, gt) # qs) =
     (case AddQueryResult m res gt of None \<Rightarrow> None | Some m' \<Rightarrow> AddQueryResults m' qs)"

text \<open>The order of the counters that the specification promises (unsigned comparison).\<close>

definition ordered_counters :: "Metric \<Rightarrow> bool" where
  "ordered_counters m \<longleftrightarrow> n_1 m \<le> n_10 m \<and> n_10 m \<le> n_100 m \<and> n_100 m \<le> n_total m"

text \<open>A reported recall that is the number zero.\<close>

definition zero_recall :: "quotient \<Rightarrow> bool" where
  "zero_recall q = (case q of Ratio a b \<Rightarrow> a = 0 | _ \<Rightarrow> False)"

text \<open>
  The invariant behind the order: after \<open>k\<close> calls the total is \<open>k\<close> and no hit counter
  exceeds it.
\<close>

definition counted :: "nat \<Rightarrow> Metric \<Rightarrow> bool" where
  "counted k m \<longleftrightarrow> unat (n_total m) = k \<and> unat (n_1 m) \<le> unat (n_10 m)
      \<and> unat (n_10 m) \<le> unat (n_100 m) \<and> unat (n_100 m) \<le> k"

subsection \<open>Files and memory blocks\<close>

text \<open>
  A file is the list of its bytes, and so is the block that \<^verbatim>\<open>new float[...]\<close> returns. A
  \<^verbatim>\<open>float\<close> is never computed with in the reader: it is the 32 bits of its object
  representation. \<^verbatim>\<open>int\<close> and \<^verbatim>\<open>float\<close> occupy four bytes each and the machine is
  little-endian, as on the platforms the tool is built for.
\<close>

type_synonym byte = "8 word"
type_synonym float32 = "32 word"

definition sizeof_int :: nat where
  "sizeof_int = 4"

definition sizeof_float :: nat where
  "sizeof_float = 4"

text \<open>
  The value of an unsigned, and of a two's complement, integer object stored in the bytes
  \<open>bs\<close>, least significant byte first.
\<close>

fun le_nat :: "byte list \<Rightarrow> nat" where
  "le_nat [] = 0"
| "le_nat (b # bs) = unat b + 256 * le_nat bs"

definition le_int :: "byte list \<Rightarrow> int" where
  "le_int bs =
     (let v = int (le_nat bs); m = 2 ^ (8 * length bs)
      in if 2 * v < m then v else v - m)"

text \<open>
  \<open>p[k]\<close> for a pointer \<open>p\<close> to the start of block \<open>x\<close> whose element type has \<open>s\<close>
  bytes: the bytes of the element, and its value read through a \<^verbatim>\<open>float *\<close> and through
  an \<^verbatim>\<open>int *\<close>.
\<close>

definition elem_bytes :: "nat \<Rightarrow> byte list \<Rightarrow> nat \<Rightarrow> byte list" where
  "elem_bytes s x k = take s (drop (s * k) x)"

definition float_elem :: "byte list \<Rightarrow> nat \<Rightarrow> float32" where
  "float_elem x k = word_of_nat (le_nat (elem_bytes sizeof_float x k))"

definition int_elem :: "byte list \<Rightarrow> nat \<Rightarrow> int" where
  "int_elem x k = le_int (elem_bytes sizeof_int x k)"

text \<open>
  How a run of the tool ends when it does not end well. The first four are the call of
  \<^verbatim>\<open>abort\<close> and the failed assertions of \<^verbatim>\<open>FvecsRead\<close>, the next four the failed
  assertions of \<^verbatim>\<open>main\<close> and \<^verbatim>\<open>InsertIndexVectorData\<close>, all named after their
  messages (assertions are taken as compiled in, that is, without \<^verbatim>\<open>NDEBUG\<close>).
  \<open>UncaughtException\<close> is an exception of \<^verbatim>\<open>std::stoi\<close>, which nothing catches.
  \<open>Undefined\<close> stands for a read of uninitialised or out-of-range memory, which C++ leaves
  undefined.
\<close>

datatype failure =
    CouldNotOpen
  | UnreasonableDimension
  | WeirdFileSize
  | CouldNotReadWholeFile
  | FailedToCreateTable
  | FailedToCreateIndex
  | DimensionNot128
  | IncorrectNbOfGroundTruth
  | UncaughtException
  | Undefined

text \<open>
  \<^verbatim>\<open>fread(ptr, width, count, f)\<close> on a stream with \<open>bytes\<close> left to read: the bytes stored
  at \<open>ptr\<close> and the number of complete elements read.
\<close>

definition fread :: "nat \<Rightarrow> nat \<Rightarrow> byte list \<Rightarrow> byte list \<times> nat" where
  "fread width count bytes =
     (let got = take (width * count) bytes in (got, length got div width))"

text \<open>
  \<^verbatim>\<open>memmove(x + dst, x + src, len)\<close> inside the block \<open>x\<close>, offsets and length in bytes;
  the source range is copied as it was before the call. A range that leaves the block is
  undefined behaviour, \<open>None\<close> here.
\<close>

definition memmove :: "byte list \<Rightarrow> nat \<Rightarrow> nat \<Rightarrow> nat \<Rightarrow> byte list option" where
  "memmove x dst src len =
     (if src + len \<le> length x \<and> dst + len \<le> length x
      then Some (take dst x @ take len (drop src x) @ drop (dst + len) x)
      else None)"

text \<open>
  The loop \<^verbatim>\<open>for (size_t i = 0; i < n; i++) memmove(x + i * d, x + 1 + i * (d + 1), d * sizeof(*x))\<close>,
  entered at row \<open>i\<close>. Pointer arithmetic on a \<^verbatim>\<open>float *\<close> counts in elements of
  \<open>sizeof_float\<close> bytes.
\<close>

function shift_rows :: "nat \<Rightarrow> nat \<Rightarrow> nat \<Rightarrow> byte list \<Rightarrow> byte list option" where
  "shift_rows i n d x =
     (if i < n
      then (case memmove x (sizeof_float * (i * d)) (sizeof_float * (1 + i * (d + 1)))
                   (d * sizeof_float) of
              None \<Rightarrow> None
            | Some x' \<Rightarrow> shift_rows (i + 1) n d x')
      else Some x)"
  by pat_completeness auto
termination
  by (relation "measure (\<lambda>(i, n, d, x). n - i)") auto

declare shift_rows.simps [simp del]

text \<open>
  \<^verbatim>\<open>FvecsRead(fname, d_out, n_out)\<close>. The argument is what \<^verbatim>\<open>fopen\<close> finds under the
  name: \<open>None\<close> when the file cannot be opened, else its bytes. The result is the triple of
  \<^verbatim>\<open>*d_out\<close>, \<^verbatim>\<open>*n_out\<close> and the block returned. The first \<^verbatim>\<open>fread\<close> stores at most
  \<open>sizeof_int\<close> bytes into the uninitialised \<^verbatim>\<open>int d\<close>; with fewer bytes in the file the
  test of \<open>d\<close> reads an indeterminate value. Sizes are natural numbers: every size computed
  is bounded by the length of the file.
\<close>

definition FvecsRead :: "byte list option \<Rightarrow> failure + nat \<times> nat \<times> byte list" where
  "FvecsRead f =
     (case f of
        None \<Rightarrow> Inl CouldNotOpen
      | Some bytes \<Rightarrow>
          (let (dbytes, _) = fread 1 sizeof_int bytes in
           if length dbytes < sizeof_int then Inl Undefined
           else
             let d = le_int dbytes in
             if \<not> (0 < d \<and> d < 1000000) then Inl UnreasonableDimension
             else
               let sz = length bytes in
               if sz mod nat ((d + 1) * 4) \<noteq> 0 then Inl WeirdFileSize
               else
                 let n = sz div nat ((d + 1) * 4);
                     (x, nr) = fread sizeof_float (n * nat (d + 1)) bytes
                 in if nr \<noteq> n * nat (d + 1) then Inl CouldNotReadWholeFile
                    else (case shift_rows 0 n (nat d) x of
                            None \<Rightarrow> Inl Undefined
                          | Some x' \<Rightarrow> Inr (nat d, n, x'))))"

text \<open>
  \<^verbatim>\<open>IvecsRead\<close> returns the block of \<^verbatim>\<open>FvecsRead\<close> through
  \<^verbatim>\<open>reinterpret_cast<int *>\<close>: the same bytes, from then on read with \<open>int_elem\<close>.
\<close>

definition IvecsRead :: "byte list option \<Rightarrow> failure + nat \<times> nat \<times> byte list" where
  "IvecsRead f = FvecsRead f"

text \<open>
  The specification's error kind for a file whose header or size is wrong or that cannot be
  read in full: the three assertions of the reader.
\<close>

definition MalformedDatasetError :: "failure \<Rightarrow> bool" where
  "MalformedDatasetError e \<longleftrightarrow>
     e = UnreasonableDimension \<or> e = WeirdFileSize \<or> e = CouldNotReadWholeFile"

text \<open>
  The file format in the specification's words: record \<open>i\<close> of a file of dimension \<open>d\<close>
  starts at element \<open>i * (d + 1)\<close> with its count prefix, followed by \<open>d\<close> payload
  elements. A well-formed file holds \<open>n \<ge> 1\<close> whole records, every prefix equal to \<open>d\<close>,
  with \<open>0 < d < 1000000\<close>.
\<close>

definition record_prefix :: "byte list \<Rightarrow> nat \<Rightarrow> nat \<Rightarrow> int" where
  "record_prefix file d i = int_elem file (i * (d + 1))"

definition payload :: "byte list \<Rightarrow> nat \<Rightarrow> nat \<Rightarrow> nat \<Rightarrow> float32" where
  "payload file d i j = float_elem file (i * (d + 1) + 1 + j)"

definition payload_int :: "byte list \<Rightarrow> nat \<Rightarrow> nat \<Rightarrow> nat \<Rightarrow> int" where
  "payload_int file d i j = int_elem file (i * (d + 1) + 1 + j)"

definition well_formed :: "byte list \<Rightarrow> nat \<Rightarrow> nat \<Rightarrow> bool" where
  "well_formed file n d \<longleftrightarrow>
     0 < n \<and> 0 < d \<and> d < 1000000 \<and> length file = n * ((d + 1) * 4)
     \<and> list_all (\<lambda>i. record_prefix file d i = int d) [0..<n]"

text \<open>
  Two small files for the examples: the vectors \<open>[1.0, 2.0]\<close> and \<open>[3.0, 4.0]\<close>, and the
  ground-truth rows \<open>[42, 7]\<close> and \<open>[-1, 3]\<close>.
\<close>

definition sift2 :: "byte list" where
  "sift2 = [2, 0, 0, 0,  0, 0, 0x80, 0x3F,  0, 0, 0, 0x40,
            2, 0, 0, 0,  0, 0, 0x40, 0x40,  0, 0, 0x80, 0x40]"

text \<open>
  The payload bytes of record \<open>i\<close> in the block \<open>x0\<close> as read from the file.
\<close>

definition row_bytes :: "byte list \<Rightarrow> nat \<Rightarrow> nat \<Rightarrow> byte list" where
  "row_bytes x0 d i = take (4 * d) (drop (4 * (1 + i * (d + 1))) x0)"

definition gt2 :: "byte list" where
  "gt2 = [2, 0, 0, 0,  42, 0, 0, 0,  7, 0, 0, 0,
          2, 0, 0, 0,  0xFF, 0xFF, 0xFF, 0xFF,  3, 0, 0, 0]"

subsection \<open>Decimal output\<close>

text \<open>
  \<^verbatim>\<open>std::to_string\<close> of an unsigned integer: its decimal digits, most significant first,
  with no sign and no leading zero. \<open>pad w k\<close> is the last \<open>w\<close> decimal digits of \<open>k\<close>,
  leading zeros included.
\<close>

definition digit_char :: "nat \<Rightarrow> char" where
  "digit_char k = ''0123456789'' ! k"

function to_string :: "nat \<Rightarrow> string" where
  "to_string k = (if k < 10 then [digit_char k] else to_string (k div 10) @ [digit_char (k mod 10)])"
  by pat_completeness auto
termination
  by (relation "measure (\<lambda>k. k)") auto

declare to_string.simps [simp del]

fun pad :: "nat \<Rightarrow> nat \<Rightarrow> string" where
  "pad 0 k = []"
| "pad (Suc w) k = pad w (k div 10) @ [digit_char (k mod 10)]"

subsection \<open>Formatting a float\<close>

text \<open>
  A \<^verbatim>\<open>float\<close> is an IEEE 754 binary32 value: one sign bit, eight exponent bits, 23
  mantissa bits. An exponent field of 255 marks infinity and NaN. The magnitude of any
  other value is \<open>float_numerator w / 2 ^ 149\<close>: the mantissa alone for the subnormal
  numbers (exponent field 0), and \<open>(2 ^ 23 + mantissa) * 2 ^ (exponent - 150)\<close> otherwise.
\<close>

definition float_sign :: "float32 \<Rightarrow> bool" where
  "float_sign w \<longleftrightarrow> 2 ^ 31 \<le> unat w"

definition float_exponent :: "float32 \<Rightarrow> nat" where
  "float_exponent w = unat w div 2 ^ 23 mod 256"

definition float_mantissa :: "float32 \<Rightarrow> nat" where
  "float_mantissa w = unat w mod 2 ^ 23"

definition isfinite :: "float32 \<Rightarrow> bool" where
  "isfinite w \<longleftrightarrow> float_exponent w \<noteq> 255"

definition float_numerator :: "float32 \<Rightarrow> nat" where
  "float_numerator w =
     (if float_exponent w = 0 then float_mantissa w
      else (2 ^ 23 + float_mantissa w) * 2 ^ (float_exponent w - 1))"

text \<open>
  \<^verbatim>\<open>ss << std::fixed << std::setprecision(6) << p[i]\<close> writes the value as
  \<^verbatim>\<open>printf("%.6f")\<close> does: an optional minus sign, the integer part, a point and six
  digits, the exact value rounded to the nearest multiple of \<open>10\<^sup>-\<^sup>6\<close>, a tie going to the
  even neighbour (the C library's rule in the default rounding mode). \<open>micros w\<close> is the
  rounded magnitude in millionths. Infinity and NaN are written as words.
\<close>

definition round_half_even :: "nat \<Rightarrow> nat \<Rightarrow> nat" where
  "round_half_even a b =
     (let q = a div b; r = a mod b
      in if 2 * r < b then q else if b < 2 * r then q + 1 else if even q then q else q + 1)"

definition micros :: "float32 \<Rightarrow> nat" where
  "micros w = round_half_even (float_numerator w * 1000000) (2 ^ 149)"

definition fixed6 :: "float32 \<Rightarrow> string" where
  "fixed6 w =
     (if float_sign w then ''-'' else '''') @
     (if isfinite w
      then to_string (micros w div 1000000) @ ''.'' @ pad 6 (micros w mod 1000000)
      else if float_mantissa w = 0 then ''inf'' else ''nan'')"

subsection \<open>Rendering a vector\<close>

text \<open>
  \<^verbatim>\<open>Vector2String(p, n)\<close>. The pointer \<open>p\<close> is the list of the floats from its address to
  the end of its block; \<^verbatim>\<open>p[i]\<close> past the end is undefined, \<open>None\<close> here. The loop
  \<^verbatim>\<open>for (int i = 0; i < n; ++i)\<close> is entered at index \<open>i\<close> with \<open>ss\<close> written so far.
\<close>

function Vector2String_loop :: "float32 list \<Rightarrow> int \<Rightarrow> int \<Rightarrow> string \<Rightarrow> string option" where
  "Vector2String_loop p n i ss =
     (if i < n
      then (if i < 0 \<or> length p \<le> nat i then None
            else Vector2String_loop p n (i + 1)
                   (ss @ fixed6 (p ! nat i) @ (if i < n - 1 then '', '' else '''')))
      else Some ss)"
  by pat_completeness auto
termination
  by (relation "measure (\<lambda>(p, n, i, ss). nat (n - i))") auto

declare Vector2String_loop.simps [simp del]

definition Vector2String :: "float32 list \<Rightarrow> int \<Rightarrow> string option" where
  "Vector2String p n =
     (case Vector2String_loop p n 0 ''['' of None \<Rightarrow> None | Some ss \<Rightarrow> Some (ss @ '']''))"

text \<open>
  A block of bytes read through a \<^verbatim>\<open>float *\<close>: its elements in order.
\<close>

definition floats :: "byte list \<Rightarrow> float32 list" where
  "floats x = map (float_elem x) [0..<length x div sizeof_float]"

subsection \<open>Ingestion\<close>

text \<open>
  \<^verbatim>\<open>bustub.ExecuteSql(sql, writer)\<close> is the only way into the engine. It is a parameter here:
  from the state of the engine and the statement it gives the status returned, the rows
  that the writer holds afterwards (\<^verbatim>\<open>values_\<close> of a \<^verbatim>\<open>StringVectorWriter\<close>), and the
  new state. The call is taken to return: nothing in the harness catches an exception, so
  one thrown by the engine would end the program. What the harness does is a trace of
  events: a statement submitted, or a line on \<^verbatim>\<open>std::cerr\<close>. The progress lines on standard output carry wall-clock times and are
  left out; nothing depends on them.
\<close>

type_synonym 's backend = "'s \<Rightarrow> string \<Rightarrow> bool \<times> string list list \<times> 's"

datatype event = Sql string | Cerr string

definition create_index :: string where
  "create_index = ''CREATE INDEX t1v1hnsw ON t1 USING hnsw (v1 vector_l2_ops) WITH (m = 16, ef_construction = 64, ef_search = 100);''"

definition insert_sql :: string where
  "insert_sql = ''INSERT INTO t1 VALUES (ARRAY ''"

text \<open>
  The conversion of a \<^verbatim>\<open>size_t\<close> to the \<^verbatim>\<open>int\<close> parameter of \<^verbatim>\<open>Vector2String\<close>: the low
  32 bits, read in two's complement.
\<close>

definition int_of_size_t :: "nat \<Rightarrow> int" where
  "int_of_size_t k =
     (let v = int k mod 2 ^ 32 in if v < 2 ^ 31 then v else v - 2 ^ 32)"

text \<open>
  The loop \<^verbatim>\<open>for (size_t i = 0; i < nb; ++i)\<close> of \<^verbatim>\<open>InsertIndexVectorData\<close>, entered at
  row \<open>i\<close> with the engine in state \<open>s\<close> and the trace \<open>tr\<close> so far; \<open>xb\<close> holds the
  floats of the base vectors.
\<close>

function insert_loop ::
  "'s backend \<Rightarrow> float32 list \<Rightarrow> nat \<Rightarrow> nat \<Rightarrow> nat \<Rightarrow> 's \<Rightarrow> event list
     \<Rightarrow> failure + event list \<times> 's" where
  "insert_loop ExecuteSql xb nb d2 i s tr =
     (if i < nb
      then (case Vector2String (drop (i * d2) xb) (int_of_size_t d2) of
              None \<Rightarrow> Inl Undefined
            | Some vector \<Rightarrow>
                (let sql = insert_sql @ vector @ '' , '' @ to_string i @ '');'';
                     (status, rows, s') = ExecuteSql s sql;
                     tr' = tr @ [Sql sql] @
                       (if \<not> status then [Cerr (''Insert data failed: index = '' @ to_string i)]
                        else [])
                 in insert_loop ExecuteSql xb nb d2 (i + 1) s' tr'))
      else Inr (tr, s))"
  by pat_completeness auto
termination
  by (relation "measure (\<lambda>(ExecuteSql, xb, nb, d2, i, s, tr). nb - i)") auto

declare insert_loop.simps [simp del]

text \<open>
  \<^verbatim>\<open>InsertIndexVectorData\<close>: the index is created (an assertion on its status), the base
  vectors are read (an assertion on their dimension) and inserted. \<open>fopen\<close> maps a file
  name to the bytes of the file, if it can be opened.
\<close>

definition InsertIndexVectorData ::
  "'s backend \<Rightarrow> (string \<Rightarrow> byte list option) \<Rightarrow> 's \<Rightarrow> failure + event list \<times> 's" where
  "InsertIndexVectorData ExecuteSql fopen s =
     (let (status, rows, s1) = ExecuteSql s create_index in
      if \<not> status then Inl FailedToCreateIndex
      else
        (case FvecsRead (fopen ''sift1M/sift_base.fvecs'') of
           Inl e \<Rightarrow> Inl e
         | Inr (d2, nb, xb) \<Rightarrow>
             if d2 \<noteq> 128 then Inl DimensionNot128
             else insert_loop ExecuteSql (floats xb) nb d2 0 s1 [Sql create_index]))"

subsection \<open>Queries\<close>

text \<open>
  \<^verbatim>\<open>std::stoi\<close>: white space is skipped, then an optional sign and the longest run of
  digits are read; with no digit, or a value outside \<^verbatim>\<open>int\<close>, it throws (\<open>None\<close>).
\<close>

definition isspace :: "char \<Rightarrow> bool" where
  "isspace c \<longleftrightarrow> c = CHR '' '' \<or> (9 \<le> (of_char c :: nat) \<and> (of_char c :: nat) \<le> 13)"

definition isdigit :: "char \<Rightarrow> bool" where
  "isdigit c \<longleftrightarrow> 48 \<le> (of_char c :: nat) \<and> (of_char c :: nat) \<le> 57"

definition digit_value :: "char \<Rightarrow> nat" where
  "digit_value c = of_char c - 48"

definition parse_nat :: "string \<Rightarrow> nat" where
  "parse_nat ds = foldl (\<lambda>a c. 10 * a + digit_value c) 0 ds"

definition stoi :: "string \<Rightarrow> int option" where
  "stoi str =
     (let s1 = dropWhile isspace str;
          signed = (s1 \<noteq> [] \<and> (hd s1 = CHR ''-'' \<or> hd s1 = CHR ''+''));
          negative = (s1 \<noteq> [] \<and> hd s1 = CHR ''-'');
          ds = takeWhile isdigit (if signed then tl s1 else s1);
          v = (if negative then - int (parse_nat ds) else int (parse_nat ds))
      in if ds = [] \<or> v < - (2 ^ 31) \<or> 2 ^ 31 \<le> v then None else Some v)"

text \<open>
  The loop \<^verbatim>\<open>for (const auto &lines : res) id_lst.push_back(std::stoi(lines[0]))\<close>;
  \<^verbatim>\<open>lines[0]\<close> of an empty row is undefined.
\<close>

fun id_list :: "string list list \<Rightarrow> failure + int list" where
  "id_list [] = Inr []"
| "id_list (lines # res) =
     (case lines of
        [] \<Rightarrow> Inl Undefined
      | cell # cells \<Rightarrow>
          (case stoi cell of
             None \<Rightarrow> Inl UncaughtException
           | Some v \<Rightarrow> (case id_list res of Inl e \<Rightarrow> Inl e | Inr ids \<Rightarrow> Inr (v # ids))))"

definition select_sql :: string where
  "select_sql = ''SELECT v2, v1 FROM t1 ORDER BY ARRAY ''"

text \<open>
  The loop of \<^verbatim>\<open>DoANNQuery\<close>, entered at query \<open>i\<close>: render the query vector, submit
  the statement, parse the identifiers and score them against the ground truth found at
  \<^verbatim>\<open>gt + 100 * i\<close>. The status of the statement is not looked at.
\<close>

function query_loop ::
  "'s backend \<Rightarrow> float32 list \<Rightarrow> nat \<Rightarrow> int list \<Rightarrow> nat \<Rightarrow> 's \<Rightarrow> Metric
     \<Rightarrow> failure + Metric \<times> 's" where
  "query_loop ExecuteSql p nq gt i s metric =
     (if i < nq
      then (case Vector2String (drop (128 * i) p) 128 of
              None \<Rightarrow> Inl Undefined
            | Some vector \<Rightarrow>
                (let sql = select_sql @ vector @ '' <-> v1 LIMIT 100;'';
                     (status, res, s') = ExecuteSql s sql
                 in case id_list res of
                      Inl e \<Rightarrow> Inl e
                    | Inr id_lst \<Rightarrow>
                        (case AddQueryResult metric id_lst (drop (100 * i) gt) of
                           None \<Rightarrow> Inl Undefined
                         | Some metric' \<Rightarrow> query_loop ExecuteSql p nq gt (i + 1) s' metric')))
      else Inr (metric, s))"
  by pat_completeness auto
termination
  by (relation "measure (\<lambda>(ExecuteSql, p, nq, gt, i, s, metric). nq - i)") auto

declare query_loop.simps [simp del]

text \<open>
  \<^verbatim>\<open>DoANNQuery\<close> runs the loop on a fresh \<^verbatim>\<open>Metric\<close>; the result is the object that
  \<^verbatim>\<open>Show\<close> then prints.
\<close>

definition DoANNQuery ::
  "'s backend \<Rightarrow> 's \<Rightarrow> float32 list \<Rightarrow> nat \<Rightarrow> int list \<Rightarrow> failure + Metric \<times> 's" where
  "DoANNQuery ExecuteSql s p nq gt = query_loop ExecuteSql p nq gt 0 s Metric_init"

subsection \<open>The program\<close>

text \<open>
  \<^verbatim>\<open>main\<close>: create the table, ingest, read the queries and the ground truth, copy the
  \<open>k * nq\<close> ground-truth integers, query. The result is the report printed and the
  trace of the ingestion.
\<close>

definition create_table_sql :: string where
  "create_table_sql = ''CREATE TABLE t1(v1 VECTOR(128), v2 integer);''"

definition main ::
  "'s backend \<Rightarrow> (string \<Rightarrow> byte list option) \<Rightarrow> 's
     \<Rightarrow> failure + (string \<times> quotient) list \<times> event list" where
  "main ExecuteSql fopen s0 =
     (let (status, rows, s1) = ExecuteSql s0 create_table_sql in
      if \<not> status then Inl FailedToCreateTable
      else
        (case InsertIndexVectorData ExecuteSql fopen s1 of
           Inl e \<Rightarrow> Inl e
         | Inr (tr, s2) \<Rightarrow>
             (case FvecsRead (fopen ''sift1M/sift_query.fvecs'') of
                Inl e \<Rightarrow> Inl e
              | Inr (d2, nq, xq) \<Rightarrow>
                  if d2 \<noteq> 128 then Inl DimensionNot128
                  else
                    (case IvecsRead (fopen ''sift1M/sift_groundtruth.ivecs'') of
                       Inl e \<Rightarrow> Inl e
                     | Inr (k, nq2, gt_int) \<Rightarrow>
                         if nq2 \<noteq> nq then Inl IncorrectNbOfGroundTruth
                         else
                           (let gt = map (int_elem gt_int) [0..<k * nq] in
                            case DoANNQuery ExecuteSql s2 (floats xq) nq gt of
                              Inl e \<Rightarrow> Inl e
                            | Inr (metric, s3) \<Rightarrow> Inr (Show metric, tr))))))"

subsection \<open>Vocabulary of the specification\<close>

text \<open>
  The words of the specification, for the statements about rendering and ingestion: a list
  of strings joined by a comma and a space; the insert statement of row \<open>i\<close>; the state of
  the engine before row \<open>i\<close> and whether the insert of row \<open>i\<close> succeeds there; the events
  of row \<open>i\<close>; the statements and the log lines of a trace; the identifier at the end of a
  statement.
\<close>

fun comma_separated :: "string list \<Rightarrow> string" where
  "comma_separated [] = []"
| "comma_separated [x] = x"
| "comma_separated (x # y # ys) = x @ '', '' @ comma_separated (y # ys)"

definition statement :: "float32 list \<Rightarrow> nat \<Rightarrow> nat \<Rightarrow> string" where
  "statement xb d2 i =
     insert_sql @ ''['' @ comma_separated (map fixed6 (take d2 (drop (i * d2) xb))) @ '']''
       @ '' , '' @ to_string i @ '');''"

fun state_before :: "'s backend \<Rightarrow> (nat \<Rightarrow> string) \<Rightarrow> 's \<Rightarrow> nat \<Rightarrow> 's" where
  "state_before ExecuteSql stmt s 0 = s"
| "state_before ExecuteSql stmt s (Suc i) =
     snd (snd (ExecuteSql (state_before ExecuteSql stmt s i) (stmt i)))"

definition insert_ok :: "'s backend \<Rightarrow> (nat \<Rightarrow> string) \<Rightarrow> 's \<Rightarrow> nat \<Rightarrow> bool" where
  "insert_ok ExecuteSql stmt s i = fst (ExecuteSql (state_before ExecuteSql stmt s i) (stmt i))"

definition row_events :: "'s backend \<Rightarrow> (nat \<Rightarrow> string) \<Rightarrow> 's \<Rightarrow> nat \<Rightarrow> event list" where
  "row_events ExecuteSql stmt s i =
     Sql (stmt i) #
     (if insert_ok ExecuteSql stmt s i then []
      else [Cerr (''Insert data failed: index = '' @ to_string i)])"

fun submitted :: "event list \<Rightarrow> string list" where
  "submitted [] = []"
| "submitted (Sql sql # tr) = sql # submitted tr"
| "submitted (Cerr msg # tr) = submitted tr"

fun logged :: "event list \<Rightarrow> string list" where
  "logged [] = []"
| "logged (Sql sql # tr) = logged tr"
| "logged (Cerr msg # tr) = msg # logged tr"

definition statement_id :: "string \<Rightarrow> string" where
  "statement_id sql = rev (takeWhile isdigit (drop 2 (rev sql)))"

text \<open>
  The base vectors \<open>[1.0, 2.0]\<close> and \<open>[3.0, 4.0]\<close> of the specification's scenario.
\<close>

definition base2 :: "float32 list" where
  "base2 = [0x3F800000, 0x40000000, 0x40400000, 0x40800000]"

subsection \<open>Reading a rendered vector back\<close>

text \<open>
  The real number that a finite \<^verbatim>\<open>float\<close> stands for.
\<close>

definition float_value :: "float32 \<Rightarrow> real" where
  "float_value w = (if float_sign w then - 1 else 1) * real (float_numerator w) / 2 ^ 149"

text \<open>
  The reader that the specification speaks of, written after its words: the text between
  the brackets is split at the commas, white space before an element is skipped, and an
  element is an optional minus sign, digits, a point and digits. \<open>fixed_point places\<close>
  says that a string has this shape with \<open>places\<close> digits after the point.
\<close>

fun split_on :: "char \<Rightarrow> string \<Rightarrow> string list" where
  "split_on c [] = [[]]"
| "split_on c (x # xs) =
     (if x = c then [] # split_on c xs
      else (x # hd (split_on c xs)) # tl (split_on c xs))"

definition unsigned_part :: "string \<Rightarrow> string" where
  "unsigned_part str = (if str \<noteq> [] \<and> hd str = CHR ''-'' then tl str else str)"

definition fixed_point :: "nat \<Rightarrow> string \<Rightarrow> bool" where
  "fixed_point places str \<longleftrightarrow>
     (let t = unsigned_part str; whole = takeWhile isdigit t; rest = dropWhile isdigit t
      in whole \<noteq> [] \<and> rest \<noteq> [] \<and> hd rest = CHR ''.''
         \<and> length (tl rest) = places \<and> list_all isdigit (tl rest))"

definition parse_fixed :: "string \<Rightarrow> real option" where
  "parse_fixed str =
     (let t = unsigned_part str; whole = takeWhile isdigit t; rest = dropWhile isdigit t
      in if fixed_point (length (tl rest)) str
         then Some ((if str \<noteq> [] \<and> hd str = CHR ''-'' then - 1 else 1) *
                (real (parse_nat whole) + real (parse_nat (tl rest)) / 10 ^ length (tl rest)))
         else None)"

definition parse_literal :: "string \<Rightarrow> real list option" where
  "parse_literal str =
     (if 2 \<le> length str \<and> hd str = CHR ''['' \<and> last str = CHR '']''
      then (let inner = butlast (tl str)
            in if inner = [] then Some []
               else those (map (\<lambda>e. parse_fixed (dropWhile isspace e))
                             (split_on CHR '','' inner)))
      else None)"

text \<open>
  The number that \<open>fixed6 w\<close> denotes, and the part of \<open>fixed6 w\<close> after the sign.
\<close>

definition written_value :: "float32 \<Rightarrow> real" where
  "written_value w = (if float_sign w then - 1 else 1) * real (micros w) / 1000000"

definition fixed6_body :: "float32 \<Rightarrow> string" where
  "fixed6_body w = to_string (micros w div 1000000) @ CHR ''.'' # pad 6 (micros w mod 1000000)"

section \<open>Properties\<close>

subsection \<open>Scoring one query\<close>

lemma scan_no_match:
  "\<forall>j. i \<le> j \<and> j < length res \<longrightarrow> res ! j \<noteq> target \<Longrightarrow> scan res target i m = m"
proof (induction res target i m rule: scan.induct)
  case (1 res target i m)
  show ?case
  proof (cases "i < length res")
    case True
    with "1.prems" have ne: "res ! i \<noteq> target" by simp
    have "scan res target (i + 1) m = m"
      using "1.IH" [OF True ne] "1.prems" by simp
    with True ne show ?thesis by (subst scan.simps) simp
  next
    case False
    then show ?thesis by (subst scan.simps) simp
  qed
qed

lemma scan_first_match:
  assumes "i \<le> k" and "k < length res" and "res ! k = target"
    and "\<forall>j. i \<le> j \<and> j < k \<longrightarrow> res ! j \<noteq> target"
  shows "scan res target i m = count_hit k m"
  using assms
proof (induction res target i m rule: scan.induct)
  case (1 res target i m)
  show ?case
  proof (cases "i = k")
    case True
    with "1.prems" show ?thesis by (subst scan.simps) simp
  next
    case False
    with "1.prems" have lt: "i < k" and ne: "res ! i \<noteq> target" and il: "i < length res"
      by auto
    have "scan res target (i + 1) m = count_hit k m"
      using "1.IH" [OF il ne] "1.prems" lt by simp
    with il ne show ?thesis by (subst scan.simps) simp
  qed
qed

lemma count_hit_fields:
  "count_hit i m =
     m\<lparr>n_1 := n_1 m + (if i < 1 then 1 else 0),
       n_10 := n_10 m + (if i < 10 then 1 else 0),
       n_100 := n_100 m + (if i < 100 then 1 else 0)\<rparr>"
  by (simp add: count_hit_def Let_def)

text \<open>
  Claim C1. One call of \<^verbatim>\<open>AddQueryResult\<close> with a result list \<open>res\<close> and a ground-truth
  row whose first entry is \<open>target\<close>: if \<open>i\<close> is the rank of the first occurrence of
  \<open>target\<close> in \<open>res\<close>, then \<open>n_1\<close> grows by one exactly when \<open>i < 1\<close>, \<open>n_10\<close> when
  \<open>i < 10\<close> and \<open>n_100\<close> when \<open>i < 100\<close>, and whatever follows rank \<open>i\<close> in the list is
  never looked at; if \<open>target\<close> does not occur, no hit counter changes. In both cases
  \<open>n_total\<close> grows by exactly one. (Increments are those of \<^verbatim>\<open>size_t\<close>.)
\<close>

theorem AddQueryResult_first_match:
  "(\<forall>i. i < length res \<and> res ! i = target \<and> (\<forall>j<i. res ! j \<noteq> target) \<longrightarrow>
        AddQueryResult m res (target # rest) =
          Some (m\<lparr>n_1 := n_1 m + (if i < 1 then 1 else 0),
                  n_10 := n_10 m + (if i < 10 then 1 else 0),
                  n_100 := n_100 m + (if i < 100 then 1 else 0),
                  n_total := n_total m + 1\<rparr>)
        \<and> (\<forall>ys. AddQueryResult m (take (Suc i) res @ ys) (target # rest) =
                 AddQueryResult m res (target # rest)))
   \<and> (target \<notin> set res \<longrightarrow>
        AddQueryResult m res (target # rest) = Some (m\<lparr>n_total := n_total m + 1\<rparr>))"
proof (intro conjI allI impI)
  fix i
  assume h: "i < length res \<and> res ! i = target \<and> (\<forall>j<i. res ! j \<noteq> target)"
  let ?m = "m\<lparr>n_total := n_total m + 1\<rparr>"
  have s: "scan res target 0 ?m = count_hit i ?m"
    using h by (intro scan_first_match) auto
  show "AddQueryResult m res (target # rest) =
          Some (m\<lparr>n_1 := n_1 m + (if i < 1 then 1 else 0),
                  n_10 := n_10 m + (if i < 10 then 1 else 0),
                  n_100 := n_100 m + (if i < 100 then 1 else 0),
                  n_total := n_total m + 1\<rparr>)"
    by (simp add: AddQueryResult_def s count_hit_fields)
  fix ys
  have "scan (take (Suc i) res @ ys) target 0 ?m = count_hit i ?m"
    using h by (intro scan_first_match) (auto simp: nth_append)
  then show "AddQueryResult m (take (Suc i) res @ ys) (target # rest) =
          AddQueryResult m res (target # rest)"
    by (simp add: AddQueryResult_def s)
next
  assume "target \<notin> set res"
  then have "scan res target 0 (m\<lparr>n_total := n_total m + 1\<rparr>) = m\<lparr>n_total := n_total m + 1\<rparr>"
    by (intro scan_no_match) auto
  then show "AddQueryResult m res (target # rest) = Some (m\<lparr>n_total := n_total m + 1\<rparr>)"
    by (simp add: AddQueryResult_def)
qed

theorem AddQueryResult_first_match_witness:
  "AddQueryResult Metric_init [7, 42, 9] [42, 7, 3] =
     Some \<lparr>n_1 = 0, n_10 = 1, n_100 = 1, n_total = 1\<rparr>
   \<and> AddQueryResult Metric_init [7, 42, 42] [42, 7, 3] =
     Some \<lparr>n_1 = 0, n_10 = 1, n_100 = 1, n_total = 1\<rparr>
   \<and> AddQueryResult Metric_init [] [42] =
     Some \<lparr>n_1 = 0, n_10 = 0, n_100 = 0, n_total = 1\<rparr>"
proof -
  have hit: "(1::nat) < length [7, 42, 9 :: int] \<and> [7, 42, 9 :: int] ! 1 = 42
      \<and> (\<forall>j<1. [7, 42, 9 :: int] ! j \<noteq> 42)"
    by simp
  have miss: "(42::int) \<notin> set []" by simp
  note a = AddQueryResult_first_match [of "[7, 42, 9]" 42 Metric_init "[7, 3]",
      THEN conjunct1, rule_format, OF hit]
  note b = AddQueryResult_first_match [of "[]" 42 Metric_init "[]",
      THEN conjunct2, rule_format, OF miss]
  from a [THEN conjunct1] a [THEN conjunct2, rule_format, of "[42]"] b
  show ?thesis by (simp add: Metric_init_def)
qed

subsection \<open>Sequences of calls\<close>

lemma AddQueryResult_cases:
  assumes "gt \<noteq> []"
  shows "AddQueryResult m res gt = Some (m\<lparr>n_total := n_total m + 1\<rparr>)
     \<or> (\<exists>i. AddQueryResult m res gt = Some (count_hit i (m\<lparr>n_total := n_total m + 1\<rparr>)))"
proof -
  from assms obtain target rest where gt: "gt = target # rest" by (cases gt) auto
  show ?thesis
  proof (cases "target \<in> set res")
    case False
    then have "scan res target 0 (m\<lparr>n_total := n_total m + 1\<rparr>) = m\<lparr>n_total := n_total m + 1\<rparr>"
      by (intro scan_no_match) auto
    then show ?thesis by (simp add: AddQueryResult_def gt)
  next
    case True
    define k where "k = (LEAST k. k < length res \<and> res ! k = target)"
    from True have ex: "\<exists>k. k < length res \<and> res ! k = target"
      by (auto simp: in_set_conv_nth)
    then have k: "k < length res \<and> res ! k = target"
      unfolding k_def by (rule LeastI_ex)
    have least: "\<And>j. j < k \<Longrightarrow> j < length res \<Longrightarrow> res ! j \<noteq> target"
      unfolding k_def using not_less_Least by blast
    have "scan res target 0 (m\<lparr>n_total := n_total m + 1\<rparr>) = count_hit k (m\<lparr>n_total := n_total m + 1\<rparr>)"
      using k least by (intro scan_first_match) auto
    then show ?thesis by (auto simp add: AddQueryResult_def gt)
  qed
qed

lemma unat_succ: "unat (w :: size_t) < k \<Longrightarrow> k < 2 ^ 64 \<Longrightarrow> unat (w + 1) = unat w + 1"
  by (simp add: unat_word_ariths)

lemma counted_step:
  assumes c: "counted k m" and k: "Suc k < 2 ^ 64" and gt: "gt \<noteq> []"
  shows "\<exists>m'. AddQueryResult m res gt = Some m' \<and> counted (Suc k) m'"
proof -
  from c have t: "unat (n_total m) = k" and a: "unat (n_1 m) \<le> unat (n_10 m)"
    and b: "unat (n_10 m) \<le> unat (n_100 m)" and d: "unat (n_100 m) \<le> k"
    by (simp_all add: counted_def)
  have t': "unat (n_total m + 1) = Suc k"
    using unat_succ [of "n_total m" "Suc k"] t k by simp
  have s1: "unat (n_1 m + 1) = unat (n_1 m) + 1"
    using unat_succ [of "n_1 m" "Suc k"] a b d k by simp
  have s10: "unat (n_10 m + 1) = unat (n_10 m) + 1"
    using unat_succ [of "n_10 m" "Suc k"] b d k by simp
  have s100: "unat (n_100 m + 1) = unat (n_100 m) + 1"
    using unat_succ [of "n_100 m" "Suc k"] d k by simp
  from AddQueryResult_cases [OF gt, of m res] show ?thesis
  proof
    assume "AddQueryResult m res gt = Some (m\<lparr>n_total := n_total m + 1\<rparr>)"
    then show ?thesis using t' a b d by (simp add: counted_def)
  next
    assume "\<exists>i. AddQueryResult m res gt = Some (count_hit i (m\<lparr>n_total := n_total m + 1\<rparr>))"
    then obtain i where
      "AddQueryResult m res gt = Some (count_hit i (m\<lparr>n_total := n_total m + 1\<rparr>))" ..
    then show ?thesis using t' a b d s1 s10 s100
      by (simp add: counted_def count_hit_fields)
  qed
qed

lemma counted_run:
  "counted k m \<Longrightarrow> k + length qs < 2 ^ 64 \<Longrightarrow> list_all (\<lambda>(res, gt). gt \<noteq> []) qs
   \<Longrightarrow> \<exists>m'. AddQueryResults m qs = Some m' \<and> counted (k + length qs) m'"
proof (induction qs arbitrary: k m)
  case Nil
  then show ?case by simp
next
  case (Cons q qs)
  obtain res gt where q: "q = (res, gt)" by (cases q)
  from Cons.prems q have gt: "gt \<noteq> []" by simp
  from Cons.prems have "Suc k < 2 ^ 64" by simp
  from counted_step [OF Cons.prems(1) this gt, of res]
  obtain m1 where m1: "AddQueryResult m res gt = Some m1" and c1: "counted (Suc k) m1" by blast
  from Cons.IH [OF c1] Cons.prems obtain m' where
    "AddQueryResults m1 qs = Some m'" "counted (Suc k + length qs) m'" by auto
  with m1 q show ?case by simp
qed

lemma counted_ordered: "counted k m \<Longrightarrow> ordered_counters m"
  by (simp add: counted_def ordered_counters_def word_le_nat_alt)

lemma hits_replicate:
  "AddQueryResults m (replicate k ([0], [0])) =
     Some (m\<lparr>n_1 := n_1 m + of_nat k, n_10 := n_10 m + of_nat k,
             n_100 := n_100 m + of_nat k, n_total := n_total m + of_nat k\<rparr>)"
proof (induction k arbitrary: m)
  case 0
  then show ?case by simp
next
  case (Suc k)
  have "scan [0] 0 0 (m\<lparr>n_total := n_total m + 1\<rparr>) = count_hit 0 (m\<lparr>n_total := n_total m + 1\<rparr>)"
    by (intro scan_first_match) auto
  then have "AddQueryResult m [0] [0] = Some (count_hit 0 (m\<lparr>n_total := n_total m + 1\<rparr>))"
    by (simp add: AddQueryResult_def)
  then show ?case by (simp add: Suc count_hit_fields add.assoc)
qed

text \<open>
  What the range of \<^verbatim>\<open>size_t\<close> excludes: a sequence of \<open>2 ^ 64\<close> calls, one more than
  any \<^verbatim>\<open>size_t\<close> loop index can count, would wrap the total around to 0 while the hit
  counters stand at \<open>2 ^ 64 - 1\<close> (the word \<open>- 1\<close>).
\<close>

lemma counters_wrap_at_2_64_calls:
  "AddQueryResults Metric_init (([], [0]) # replicate (2 ^ 64 - 1) ([0], [0])) =
     Some \<lparr>n_1 = - 1, n_10 = - 1, n_100 = - 1, n_total = 0\<rparr>
   \<and> \<not> ordered_counters \<lparr>n_1 = - 1, n_10 = - 1, n_100 = - 1, n_total = 0\<rparr>"
proof
  let ?qs = "([], [0]) # replicate (2 ^ 64 - 1) ([0 :: int], [0 :: int])"
  have miss: "AddQueryResult Metric_init [] [0] = Some (Metric_init\<lparr>n_total := 1\<rparr>)"
    by (simp add: AddQueryResult_def scan.simps Metric_init_def)
  have w: "(of_nat (2 ^ 64 - 1) :: size_t) = - 1"
    by simp
  have "AddQueryResults Metric_init ?qs =
      AddQueryResults (Metric_init\<lparr>n_total := 1\<rparr>) (replicate (2 ^ 64 - 1) ([0], [0]))"
    by (simp add: miss)
  also have "\<dots> = Some \<lparr>n_1 = - 1, n_10 = - 1, n_100 = - 1, n_total = 0\<rparr>"
    unfolding hits_replicate w by (simp add: Metric_init_def)
  finally show "AddQueryResults Metric_init ?qs =
      Some \<lparr>n_1 = - 1, n_10 = - 1, n_100 = - 1, n_total = 0\<rparr>" .
  show "\<not> ordered_counters \<lparr>n_1 = - 1, n_10 = - 1, n_100 = - 1, n_total = 0\<rparr>"
    by (simp add: ordered_counters_def)
qed

subsection \<open>Reporting with no query recorded\<close>

text \<open>
  On the freshly constructed object \<^verbatim>\<open>Show\<close> returns normally and every ratio it prints
  is NaN: it neither reports zero recalls nor fails.
\<close>

theorem Show_unguarded_counterexample:
  "Show Metric_init = [(''R@1'', NaN), (''R@10'', NaN), (''R@100'', NaN)]
   \<and> \<not> list_all (\<lambda>(label, q). zero_recall q) (Show Metric_init)"
  by (simp add: Show_def fdiv_def Metric_init_def zero_recall_def)

text \<open>
  Claim C4, as amended. With \<open>n_total = 0\<close> the division is carried out unguarded: each
  line shows the IEEE quotient of its hit counter by zero, NaN for a counter that is zero
  and infinity otherwise.
\<close>

theorem Show_divides_by_zero:
  "n_total m = 0 \<Longrightarrow>
   Show m = [(''R@1'', if n_1 m = 0 then NaN else PosInf),
             (''R@10'', if n_10 m = 0 then NaN else PosInf),
             (''R@100'', if n_100 m = 0 then NaN else PosInf)]"
  by (simp add: Show_def fdiv_def)

theorem Show_divides_by_zero_witness:
  "n_total Metric_init = 0
   \<and> Show Metric_init = [(''R@1'', NaN), (''R@10'', NaN), (''R@100'', NaN)]"
proof -
  have z: "n_total Metric_init = 0" by (simp add: Metric_init_def)
  from Show_divides_by_zero [OF z] z show ?thesis by (simp add: Metric_init_def)
qed

subsection \<open>Reading a dataset file\<close>

lemma memmove_append:
  assumes "length P = dst" and "dst \<le> src" and "src + len \<le> dst + length R"
  shows "memmove (P @ R) dst src len = Some (P @ take len (drop (src - dst) R) @ drop len R)"
  using assms by (simp add: memmove_def)

lemma length_row_bytes:
  "length x0 = 4 * (n * (d + 1)) \<Longrightarrow> i < n \<Longrightarrow> length (row_bytes x0 d i) = 4 * d"
proof -
  assume len: "length x0 = 4 * (n * (d + 1))" and i: "i < n"
  from i have "Suc i * (d + 1) \<le> n * (d + 1)"
    by (intro mult_le_mono1) simp
  then have "4 * (1 + i * (d + 1)) + 4 * d \<le> 4 * (n * (d + 1))" by simp
  with len show ?thesis by (simp add: row_bytes_def)
qed

lemma shift_rows_closed:
  assumes len: "length x0 = 4 * (n * (d + 1))"
  shows "i \<le> n \<Longrightarrow> length P = 4 * (i * d) \<Longrightarrow>
     shift_rows i n d (P @ drop (4 * (i * d)) x0) =
       Some (P @ concat (map (row_bytes x0 d) [i..<n]) @ drop (4 * (n * d)) x0)"
proof (induction "n - i" arbitrary: i P)
  case 0
  then have "i = n" by simp
  then show ?case by (subst shift_rows.simps) simp
next
  case (Suc k)
  then have i: "i < n" by simp
  let ?R = "drop (4 * (i * d)) x0"
  from i have le1: "Suc i * (d + 1) \<le> n * (d + 1)"
    by (intro mult_le_mono1) simp
  have a: "4 * (i * d) \<le> 4 * (1 + i * (d + 1))" by simp
  have b: "4 * (1 + i * (d + 1)) + d * 4 \<le> 4 * (i * d) + length ?R"
    using le1 len by simp
  have mm: "memmove (P @ ?R) (4 * (i * d)) (4 * (1 + i * (d + 1))) (d * 4) =
      Some (P @ take (d * 4) (drop (4 * (1 + i * (d + 1)) - 4 * (i * d)) ?R) @ drop (d * 4) ?R)"
    using Suc.prems(2) a b by (rule memmove_append)
  have e: "4 * (1 + i * (d + 1)) - 4 * (i * d) + 4 * (i * d) = 4 * (1 + i * (d + 1))"
    using a by simp
  have "drop (4 * (1 + i * (d + 1)) - 4 * (i * d)) ?R = drop (4 * (1 + i * (d + 1))) x0"
    by (simp only: drop_drop e)
  then have r: "take (d * 4) (drop (4 * (1 + i * (d + 1)) - 4 * (i * d)) ?R) = row_bytes x0 d i"
    by (simp only: row_bytes_def mult.commute [of d 4])
  have r2: "drop (d * 4) ?R = drop (4 * ((i + 1) * d)) x0"
    by (simp add: algebra_simps)
  have lenP: "length (P @ row_bytes x0 d i) = 4 * ((i + 1) * d)"
    using Suc.prems(2) length_row_bytes [OF len i] by (simp add: algebra_simps)
  have k: "k = n - (i + 1)" using Suc.hyps(2) by simp
  have le: "i + 1 \<le> n" using i by simp
  note IH = Suc.hyps(1) [OF k le lenP]
  have "shift_rows i n d (P @ ?R) =
      (case memmove (P @ ?R) (sizeof_float * (i * d)) (sizeof_float * (1 + i * (d + 1)))
             (d * sizeof_float) of
         None \<Rightarrow> None
       | Some x' \<Rightarrow> shift_rows (i + 1) n d x')"
    using i by (subst shift_rows.simps) (simp only: if_True)
  also have "\<dots> = shift_rows (i + 1) n d ((P @ row_bytes x0 d i) @ drop (4 * ((i + 1) * d)) x0)"
    by (simp only: sizeof_float_def mm r r2 option.case append_assoc)
  also note IH
  finally show ?case using i by (simp add: upt_conv_Cons)
qed

lemma length_concat_rows:
  "(\<And>k. k < n \<Longrightarrow> length (f k) = b) \<Longrightarrow> length (concat (map f [0..<n])) = b * n"
  by (induction n) (simp_all add: algebra_simps)

lemma block_of_concat:
  "(\<And>k. k < n \<Longrightarrow> length (f k) = b) \<Longrightarrow> i < n \<Longrightarrow>
   take b (drop (b * i) (concat (map f [0..<n]) @ rest)) = f i"
proof (induction n arbitrary: rest)
  case 0
  then show ?case by simp
next
  case (Suc n)
  have len: "length (concat (map f [0..<n])) = b * n"
    using Suc.prems(1) by (intro length_concat_rows) simp
  show ?case
  proof (cases "i < n")
    case True
    have "take b (drop (b * i) (concat (map f [0..<n]) @ (f n @ rest))) = f i"
      using Suc.prems(1) True by (intro Suc.IH) simp_all
    then show ?thesis by simp
  next
    case False
    with Suc.prems(2) have "i = n" by simp
    then show ?thesis using len Suc.prems(1) [of n] by simp
  qed
qed

lemma take_drop_take:
  "a + b \<le> c \<Longrightarrow> take a (drop b (take c xs)) = take a (drop b xs)"
  by (simp add: drop_take min_def)

lemma elem_of_row:
  assumes "j < d"
  shows "take 4 (drop (4 * j) (take (4 * d) (drop (4 * r) xs))) = elem_bytes 4 xs (r + j)"
proof -
  from assms have "4 + 4 * j \<le> 4 * d" by simp
  then have "take 4 (drop (4 * j) (take (4 * d) (drop (4 * r) xs))) =
      take 4 (drop (4 * j) (drop (4 * r) xs))"
    by (rule take_drop_take)
  then show ?thesis by (simp add: elem_bytes_def algebra_simps)
qed

lemma FvecsRead_returns:
  assumes "4 \<le> length bytes" and "le_int (take 4 bytes) = int d" and "0 < d" and "d < 1000000"
    and "length bytes = n * ((d + 1) * 4)"
  shows "FvecsRead (Some bytes) =
     Inr (d, n, concat (map (row_bytes bytes d) [0..<n]) @ drop (4 * (n * d)) bytes)"
proof -
  have nat: "nat ((int d + 1) * 4) = (d + 1) * 4" by (simp add: nat_mult_distrib nat_add_distrib)
  have nat1: "nat (int d + 1) = d + 1" by (simp add: nat_add_distrib)
  have len: "length bytes = 4 * (n * (d + 1))" using assms(5) by (simp add: algebra_simps)
  have "shift_rows 0 n d ([] @ drop (4 * (0 * d)) bytes) =
      Some ([] @ concat (map (row_bytes bytes d) [0..<n]) @ drop (4 * (n * d)) bytes)"
    by (rule shift_rows_closed [OF len]) simp_all
  then have sh: "shift_rows 0 n d bytes =
      Some (concat (map (row_bytes bytes d) [0..<n]) @ drop (4 * (n * d)) bytes)"
    by simp
  have tk: "take (4 * (n * (d + 1))) bytes = bytes" using len by simp
  have l4: "length (take 4 bytes) = 4" using assms(1) by simp
  have dv: "length bytes div ((d + 1) * 4) = n" and md: "length bytes mod ((d + 1) * 4) = 0"
    using assms(5) by simp_all
  have fr: "fread 4 (n * (d + 1)) bytes = (bytes, n * (d + 1))"
    using len by (simp add: fread_def)
  have fd: "fread 1 4 bytes = (take 4 bytes, 4)"
    using assms(1) by (simp add: fread_def)
  show ?thesis
    unfolding FvecsRead_def sizeof_int_def sizeof_float_def option.case fd split_conv Let_def
      l4 assms(2) nat nat1 dv md fr
    using assms(3,4) sh by simp
qed

lemma FvecsRead_elem:
  assumes len: "length bytes = n * ((d + 1) * 4)" and i: "i < n" and j: "j < d"
  shows "elem_bytes 4 (concat (map (row_bytes bytes d) [0..<n]) @ rest) (i * d + j) =
     elem_bytes 4 bytes (i * (d + 1) + 1 + j)"
proof -
  have len': "length bytes = 4 * (n * (d + 1))" using len by (simp add: algebra_simps)
  let ?X = "concat (map (row_bytes bytes d) [0..<n]) @ rest"
  have row: "take (4 * d) (drop (4 * d * i) ?X) = row_bytes bytes d i"
    using i by (intro block_of_concat) (simp_all add: length_row_bytes [OF len'])
  have "elem_bytes 4 ?X (i * d + j) = take 4 (drop (4 * j) (take (4 * d) (drop (4 * (i * d)) ?X)))"
    using elem_of_row [OF j, of "i * d" ?X] by simp
  also have "\<dots> = take 4 (drop (4 * j) (row_bytes bytes d i))"
    using row by (simp add: mult.assoc mult.commute [of d i])
  also have "\<dots> = elem_bytes 4 bytes (1 + i * (d + 1) + j)"
    unfolding row_bytes_def by (rule elem_of_row [OF j])
  finally show ?thesis by (simp add: add.commute add.left_commute)
qed

lemma le_nat_bound: "le_nat bs < 2 ^ (8 * length bs)"
proof (induction bs)
  case Nil
  then show ?case by simp
next
  case (Cons b bs)
  have "unat b < 256" using unsigned_less [of b] by simp
  moreover have "2 ^ (8 * length (b # bs)) = 256 * (2 :: nat) ^ (8 * length bs)"
    by (simp add: power_add)
  ultimately show ?case using Cons.IH by simp
qed

lemma signed_of_small:
  assumes "0 \<le> v" and "v < 2 ^ 32"
  shows "signed_take_bit 31 (v :: int) = (if 2 * v < 2 ^ 32 then v else v - 2 ^ 32)"
proof -
  have s: "signed_take_bit 31 v = (v + 2147483648) mod 4294967296 - 2147483648"
    by (simp add: signed_take_bit_eq_take_bit_shift take_bit_eq_mod)
  show ?thesis
  proof (cases "2 * v < 2 ^ 32")
    case True
    with assms have "(v + 2147483648) mod 4294967296 = v + 2147483648"
      by (intro mod_pos_pos_trivial) simp_all
    with True s show ?thesis by simp
  next
    case False
    have "(v + 2147483648) mod 4294967296 = (v + 2147483648 - 4294967296) mod 4294967296"
      by (simp only: minus_mod_self2)
    also have "\<dots> = v + 2147483648 - 4294967296"
      using False assms by (intro mod_pos_pos_trivial) simp_all
    finally show ?thesis using False s by simp
  qed
qed

lemma le_int_sint:
  assumes "length bs = 4"
  shows "le_int bs = sint (word_of_nat (le_nat bs) :: 32 word)"
proof -
  let ?v = "int (le_nat bs)"
  have bn: "le_nat bs < 4294967296" using le_nat_bound [of bs] assms by simp
  then have b: "?v < 2 ^ 32" by simp
  have "take_bit 32 (le_nat bs) = le_nat bs"
    using bn by (intro take_bit_nat_eq_self) simp
  then have "sint (word_of_nat (le_nat bs) :: 32 word) = signed_take_bit 31 ?v"
    by (simp add: sint_uint unsigned_of_nat)
  also have "\<dots> = (if 2 * ?v < 2 ^ 32 then ?v else ?v - 2 ^ 32)"
    using b by (intro signed_of_small) simp_all
  finally show ?thesis using assms by (simp add: le_int_def Let_def)
qed

lemma well_formed_first:
  assumes "well_formed file n d"
  shows "4 \<le> length file" and "le_int (take 4 file) = int d"
proof -
  from assms have n: "0 < n" and len: "length file = n * ((d + 1) * 4)"
    and all: "list_all (\<lambda>i. record_prefix file d i = int d) [0..<n]"
    by (simp_all add: well_formed_def)
  from n obtain k where "n = Suc k" using gr0_implies_Suc by blast
  with len show "4 \<le> length file" by simp
  from n have "0 \<in> set [0..<n]" by simp
  with all have "record_prefix file d 0 = int d" by (auto simp: list_all_iff)
  then show "le_int (take 4 file) = int d"
    by (simp add: record_prefix_def int_elem_def elem_bytes_def sizeof_int_def)
qed

lemma FvecsRead_of_well_formed:
  assumes "well_formed file n d"
  shows "FvecsRead (Some file) =
     Inr (d, n, concat (map (row_bytes file d) [0..<n]) @ drop (4 * (n * d)) file)"
proof -
  from assms have "0 < d" "d < 1000000" "length file = n * ((d + 1) * 4)"
    by (simp_all add: well_formed_def)
  with well_formed_first [OF assms] show ?thesis by (intro FvecsRead_returns)
qed

lemma length_rows:
  assumes "length file = n * ((d + 1) * 4)"
  shows "length (concat (map (row_bytes file d) [0..<n])) = 4 * (n * d)"
proof -
  from assms have len: "length file = 4 * (n * (d + 1))" by (simp add: algebra_simps)
  have "length (concat (map (row_bytes file d) [0..<n])) = (4 * d) * n"
    by (intro length_concat_rows) (simp add: length_row_bytes [OF len])
  then show ?thesis by (simp add: algebra_simps)
qed

text \<open>
  Claim C2. For a well-formed file of \<open>n\<close> records of dimension \<open>d\<close>, \<^verbatim>\<open>FvecsRead\<close>
  returns, with \<^verbatim>\<open>*d_out = d\<close> and \<^verbatim>\<open>*n_out = n\<close>, a block that holds at least \<open>n * d\<close>
  floats, and its float number \<open>i * d + j\<close> (row \<open>i\<close>, column \<open>j\<close>) is payload element
  \<open>j\<close> of record \<open>i\<close>; so no count prefix is among the \<open>n * d\<close> elements of the matrix.
\<close>

theorem FvecsRead_well_formed:
  "well_formed file n d \<Longrightarrow>
   \<exists>x. FvecsRead (Some file) = Inr (d, n, x) \<and> 4 * (n * d) \<le> length x
     \<and> (\<forall>i<n. \<forall>j<d. float_elem x (i * d + j) = payload file d i j)"
proof -
  assume wf: "well_formed file n d"
  then have len: "length file = n * ((d + 1) * 4)" by (simp add: well_formed_def)
  let ?x = "concat (map (row_bytes file d) [0..<n]) @ drop (4 * (n * d)) file"
  have "4 * (n * d) \<le> length ?x" using length_rows [OF len] by simp
  moreover have "\<forall>i<n. \<forall>j<d. float_elem ?x (i * d + j) = payload file d i j"
    using FvecsRead_elem [OF len]
    by (simp add: float_elem_def payload_def sizeof_float_def)
  ultimately show ?thesis using FvecsRead_of_well_formed [OF wf] by blast
qed

lemma well_formed_sift2: "well_formed sift2 2 2"
  by (simp add: well_formed_def sift2_def record_prefix_def int_elem_def elem_bytes_def
      sizeof_int_def le_int_def upt_rec)

theorem FvecsRead_well_formed_witness:
  "well_formed sift2 2 2
   \<and> (\<exists>x. FvecsRead (Some sift2) = Inr (2, 2, x)
        \<and> float_elem x 0 = 0x3F800000 \<and> float_elem x 1 = 0x40000000
        \<and> float_elem x 2 = 0x40400000 \<and> float_elem x 3 = 0x40800000)"
proof -
  from FvecsRead_well_formed [OF well_formed_sift2]
  obtain x where r: "FvecsRead (Some sift2) = Inr (2, 2, x)"
    and e: "\<forall>i<2. \<forall>j<2. float_elem x (i * 2 + j) = payload sift2 2 i j" by blast
  have p: "payload sift2 2 0 0 = 0x3F800000" "payload sift2 2 0 1 = 0x40000000"
    "payload sift2 2 1 0 = 0x40400000" "payload sift2 2 1 1 = 0x40800000"
    by (simp_all add: payload_def float_elem_def elem_bytes_def sizeof_float_def sift2_def)
  from e [rule_format, of 0 0] e [rule_format, of 0 1] e [rule_format, of 1 0]
    e [rule_format, of 1 1] p
  have "float_elem x 0 = 0x3F800000" "float_elem x 1 = 0x40000000"
    "float_elem x 2 = 0x40400000" "float_elem x 3 = 0x40800000"
    by simp_all
  with r well_formed_sift2 show ?thesis by blast
qed

lemma FvecsRead_bad_dimension:
  assumes "4 \<le> length bytes" and "\<not> (0 < le_int (take 4 bytes) \<and> le_int (take 4 bytes) < 1000000)"
  shows "FvecsRead (Some bytes) = Inl UnreasonableDimension"
proof -
  have fd: "fread 1 4 bytes = (take 4 bytes, 4)"
    using assms(1) by (simp add: fread_def)
  have l4: "length (take 4 bytes) = 4" using assms(1) by simp
  show ?thesis
    unfolding FvecsRead_def sizeof_int_def option.case fd split_conv Let_def l4
    using assms(2) by simp
qed

lemma FvecsRead_bad_size:
  assumes "4 \<le> length bytes" and "le_int (take 4 bytes) = int d" and "0 < d" and "d < 1000000"
    and "length bytes mod ((d + 1) * 4) \<noteq> 0"
  shows "FvecsRead (Some bytes) = Inl WeirdFileSize"
proof -
  have nat: "nat ((int d + 1) * 4) = (d + 1) * 4" by (simp add: nat_mult_distrib nat_add_distrib)
  have fd: "fread 1 4 bytes = (take 4 bytes, 4)"
    using assms(1) by (simp add: fread_def)
  have l4: "length (take 4 bytes) = 4" using assms(1) by simp
  show ?thesis
    unfolding FvecsRead_def sizeof_int_def option.case fd split_conv Let_def l4 assms(2) nat
    using assms(3,4,5) by simp
qed

text \<open>
  Claim C5, as amended. Let \<open>d\<close> be the first four-byte integer of a file. If the size of
  the file is not a multiple of \<open>(d + 1) * 4\<close>, the reader fails with a
  \<open>MalformedDatasetError\<close>. If \<open>0 < d < 1000000\<close> and the size is such a multiple, the
  reader returns with dimension \<open>d\<close> and record count \<open>size div ((d + 1) * 4)\<close>.
\<close>

theorem FvecsRead_size_check:
  "4 \<le> length bytes \<Longrightarrow> d = le_int (take 4 bytes) \<Longrightarrow>
   (\<not> (d + 1) * 4 dvd int (length bytes) \<longrightarrow>
      (\<exists>e. FvecsRead (Some bytes) = Inl e \<and> MalformedDatasetError e))
   \<and> (0 < d \<and> d < 1000000 \<and> (d + 1) * 4 dvd int (length bytes) \<longrightarrow>
      (\<exists>x. FvecsRead (Some bytes) = Inr (nat d, length bytes div nat ((d + 1) * 4), x)))"
proof (intro conjI impI)
  assume len: "4 \<le> length bytes" and d: "d = le_int (take 4 bytes)"
  {
    assume nd: "\<not> (d + 1) * 4 dvd int (length bytes)"
    show "\<exists>e. FvecsRead (Some bytes) = Inl e \<and> MalformedDatasetError e"
    proof (cases "0 < d \<and> d < 1000000")
      case False
      then have "FvecsRead (Some bytes) = Inl UnreasonableDimension"
        using FvecsRead_bad_dimension [OF len] d by simp
      then show ?thesis by (simp add: MalformedDatasetError_def)
    next
      case True
      then have dd: "le_int (take 4 bytes) = int (nat d)" and p: "0 < nat d" "nat d < 1000000"
        using d by (simp_all add: nat_less_iff)
      have e: "(d + 1) * 4 = int ((nat d + 1) * 4)" using True by simp
      from nd have "\<not> (nat d + 1) * 4 dvd length bytes"
        by (metis e int_dvd_int_iff)
      then have "length bytes mod ((nat d + 1) * 4) \<noteq> 0" by (simp add: dvd_eq_mod_eq_0)
      then have "FvecsRead (Some bytes) = Inl WeirdFileSize"
        by (rule FvecsRead_bad_size [OF len dd p])
      then show ?thesis by (simp add: MalformedDatasetError_def)
    qed
  }
  {
    assume a: "0 < d \<and> d < 1000000 \<and> (d + 1) * 4 dvd int (length bytes)"
    then have dd: "le_int (take 4 bytes) = int (nat d)" and p: "0 < nat d" "nat d < 1000000"
      using d by (simp_all add: nat_less_iff)
    have e: "(d + 1) * 4 = int ((nat d + 1) * 4)" using a by simp
    have n: "nat ((d + 1) * 4) = (nat d + 1) * 4" using a by (simp add: nat_mult_distrib nat_add_distrib)
    from a have "(nat d + 1) * 4 dvd length bytes"
      by (metis e int_dvd_int_iff)
    then have l: "length bytes = (length bytes div ((nat d + 1) * 4)) * ((nat d + 1) * 4)"
      by simp
    from FvecsRead_returns [OF len dd p l]
    show "\<exists>x. FvecsRead (Some bytes) = Inr (nat d, length bytes div nat ((d + 1) * 4), x)"
      unfolding n by blast
  }
qed

text \<open>
  Without the bounds on \<open>d\<close> the second half fails: a file of four zero bytes has \<open>d = 0\<close>
  and a size that is a multiple of \<open>(0 + 1) * 4\<close>, yet the reader stops at its test of the
  dimension.
\<close>

theorem FvecsRead_size_check_counterexample:
  "le_int (take 4 [0, 0, 0, 0]) = 0
   \<and> (0 + 1) * 4 dvd int (length [0, 0, 0, 0 :: byte])
   \<and> FvecsRead (Some [0, 0, 0, 0]) = Inl UnreasonableDimension"
proof -
  have "le_int (take 4 [0, 0, 0, 0]) = 0" by (simp add: le_int_def)
  moreover from this have "FvecsRead (Some [0, 0, 0, 0]) = Inl UnreasonableDimension"
    by (intro FvecsRead_bad_dimension) simp_all
  ultimately show ?thesis by simp
qed

theorem FvecsRead_size_check_witness:
  "(\<exists>e. FvecsRead (Some [1, 0, 0, 0, 5, 6, 7, 8, 9]) = Inl e \<and> MalformedDatasetError e)
   \<and> (\<exists>x. FvecsRead (Some sift2) = Inr (2, 2, x))"
proof
  let ?b = "[1, 0, 0, 0, 5, 6, 7, 8, 9] :: byte list"
  have l1: "4 \<le> length ?b" by simp
  have d1: "(1 :: int) = le_int (take 4 ?b)" by (simp add: le_int_def)
  have nd: "\<not> (1 + 1) * 4 dvd int (length ?b)" by simp
  from FvecsRead_size_check [OF l1 d1, THEN conjunct1, rule_format, OF nd]
  show "\<exists>e. FvecsRead (Some ?b) = Inl e \<and> MalformedDatasetError e" .
  have l2: "4 \<le> length sift2" by (simp add: sift2_def)
  have d2: "(2 :: int) = le_int (take 4 sift2)" by (simp add: le_int_def sift2_def)
  have m: "0 < (2 :: int) \<and> (2 :: int) < 1000000 \<and> (2 + 1) * 4 dvd int (length sift2)"
    by (simp add: sift2_def)
  from FvecsRead_size_check [OF l2 d2, THEN conjunct2, rule_format, OF m]
  show "\<exists>x. FvecsRead (Some sift2) = Inr (2, 2, x)" by (simp add: sift2_def)
qed

text \<open>
  Claim C10. On a well-formed file \<^verbatim>\<open>IvecsRead\<close> returns the dimension, the count and the
  block of \<^verbatim>\<open>FvecsRead\<close>; since \<^verbatim>\<open>int\<close> and \<^verbatim>\<open>float\<close> have the same size, element
  \<open>i * d + j\<close> read through the \<^verbatim>\<open>int *\<close> is the integer stored in payload \<open>j\<close> of
  record \<open>i\<close>, and it is the two's complement reading of the 32 bits that the
  \<^verbatim>\<open>float *\<close> sees at the same index.
\<close>

theorem IvecsRead_reinterprets:
  "well_formed file n d \<Longrightarrow>
   \<exists>x. FvecsRead (Some file) = Inr (d, n, x) \<and> IvecsRead (Some file) = Inr (d, n, x)
     \<and> sizeof_int = sizeof_float
     \<and> (\<forall>i<n. \<forall>j<d. int_elem x (i * d + j) = payload_int file d i j
                    \<and> int_elem x (i * d + j) = sint (float_elem x (i * d + j)))"
proof -
  assume wf: "well_formed file n d"
  then have len: "length file = n * ((d + 1) * 4)" by (simp add: well_formed_def)
  let ?x = "concat (map (row_bytes file d) [0..<n]) @ drop (4 * (n * d)) file"
  have r: "FvecsRead (Some file) = Inr (d, n, ?x)" by (rule FvecsRead_of_well_formed [OF wf])
  have a: "\<forall>i<n. \<forall>j<d. int_elem ?x (i * d + j) = payload_int file d i j"
    using FvecsRead_elem [OF len]
    by (simp add: int_elem_def payload_int_def sizeof_int_def)
  have b: "\<forall>i<n. \<forall>j<d. int_elem ?x (i * d + j) = sint (float_elem ?x (i * d + j))"
  proof (intro allI impI)
    fix i j assume i: "i < n" and j: "j < d"
    let ?k = "i * d + j"
    have "Suc (i * d + j) \<le> Suc i * d" using j by simp
    also have "\<dots> \<le> n * d" using i by (intro mult_le_mono1) simp
    finally have "4 * ?k + 4 \<le> 4 * (n * d)" by simp
    then have "4 * ?k + 4 \<le> length ?x" using length_rows [OF len] by simp
    then have "length (elem_bytes 4 ?x ?k) = 4" by (simp add: elem_bytes_def)
    from le_int_sint [OF this] show "int_elem ?x ?k = sint (float_elem ?x ?k)"
      by (simp add: int_elem_def float_elem_def sizeof_int_def sizeof_float_def)
  qed
  have "sizeof_int = sizeof_float" by (simp add: sizeof_int_def sizeof_float_def)
  with r a b show ?thesis unfolding IvecsRead_def by blast
qed

lemma well_formed_gt2: "well_formed gt2 2 2"
  by (simp add: well_formed_def gt2_def record_prefix_def int_elem_def elem_bytes_def
      sizeof_int_def le_int_def upt_rec)

theorem IvecsRead_reinterprets_witness:
  "well_formed gt2 2 2
   \<and> (\<exists>x. IvecsRead (Some gt2) = Inr (2, 2, x) \<and> FvecsRead (Some gt2) = Inr (2, 2, x)
        \<and> map (int_elem x) [0, 1, 2, 3] = [42, 7, - 1, 3]
        \<and> map (float_elem x) [0, 1, 2, 3] = [42, 7, - 1, 3])"
proof -
  from IvecsRead_reinterprets [OF well_formed_gt2]
  obtain x where r: "IvecsRead (Some gt2) = Inr (2, 2, x)" "FvecsRead (Some gt2) = Inr (2, 2, x)"
    and e: "\<forall>i<2. \<forall>j<2. int_elem x (i * 2 + j) = payload_int gt2 2 i j
                    \<and> int_elem x (i * 2 + j) = sint (float_elem x (i * 2 + j))" by blast
  have p: "payload_int gt2 2 0 0 = 42" "payload_int gt2 2 0 1 = 7"
    "payload_int gt2 2 1 0 = - 1" "payload_int gt2 2 1 1 = 3"
    by (simp_all add: payload_int_def int_elem_def elem_bytes_def sizeof_int_def gt2_def
        le_int_def)
  from e [rule_format, of 0 0] e [rule_format, of 0 1] e [rule_format, of 1 0]
    e [rule_format, of 1 1] p
  have i: "int_elem x 0 = 42" "int_elem x 1 = 7" "int_elem x 2 = - 1" "int_elem x 3 = 3"
    and s: "sint (float_elem x 0) = 42" "sint (float_elem x 1) = 7"
      "sint (float_elem x 2) = - 1" "sint (float_elem x 3) = 3"
    by simp_all
  have w: "\<And>w :: 32 word. \<And>k. sint w = k \<Longrightarrow> w = word_of_int k"
    by auto
  from s have "float_elem x 0 = 42" "float_elem x 1 = 7" "float_elem x 2 = - 1" "float_elem x 3 = 3"
    by (auto dest!: w)
  with i r well_formed_gt2 show ?thesis by auto
qed

text \<open>
  The equal sizes matter: read with a stride of eight bytes, the first element of the block
  \<open>[42, 7]\<close> would not be 42.
\<close>

lemma int_stride_matters:
  "le_int (elem_bytes 4 [42, 0, 0, 0, 7, 0, 0, 0] 0) = 42
   \<and> le_int (elem_bytes 8 [42, 0, 0, 0, 7, 0, 0, 0] 0) = 30064771114"
  by (simp add: elem_bytes_def le_int_def)

subsection \<open>Decimal output and rendering\<close>

lemma of_char_digit_char: "k < 10 \<Longrightarrow> (of_char (digit_char k) :: nat) = 48 + k"
proof -
  assume "k < 10"
  then have "k \<in> {0, 1, 2, 3, 4, 5, 6, 7, 8, 9}" by auto
  then show ?thesis by (auto simp: digit_char_def)
qed

lemma isdigit_digit_char: "k < 10 \<Longrightarrow> isdigit (digit_char k)"
  by (simp add: isdigit_def of_char_digit_char)

lemma digit_value_digit_char: "k < 10 \<Longrightarrow> digit_value (digit_char k) = k"
  by (simp add: digit_value_def of_char_digit_char)

lemma to_string_digits: "c \<in> set (to_string k) \<Longrightarrow> isdigit c"
proof (induction k rule: to_string.induct)
  case (1 k)
  show ?case
  proof (cases "k < 10")
    case True
    with "1.prems" show ?thesis
      by (subst (asm) to_string.simps) (simp add: isdigit_digit_char)
  next
    case False
    with "1.prems" have "c \<in> set (to_string (k div 10)) \<or> c = digit_char (k mod 10)"
      by (subst (asm) to_string.simps) auto
    then show ?thesis using "1.IH" [OF False] isdigit_digit_char [of "k mod 10"] by auto
  qed
qed

lemma to_string_not_empty: "to_string k \<noteq> []"
  by (subst to_string.simps) simp

lemma parse_nat_snoc: "parse_nat (ds @ [c]) = 10 * parse_nat ds + digit_value c"
  by (simp add: parse_nat_def)

lemma parse_nat_to_string: "parse_nat (to_string k) = k"
proof (induction k rule: to_string.induct)
  case (1 k)
  show ?case
  proof (cases "k < 10")
    case True
    then show ?thesis
      by (subst to_string.simps) (simp add: parse_nat_def digit_value_digit_char)
  next
    case False
    then have "parse_nat (to_string k) = 10 * parse_nat (to_string (k div 10)) + k mod 10"
      by (subst to_string.simps) (simp add: parse_nat_snoc digit_value_digit_char)
    with "1.IH" [OF False] show ?thesis by simp
  qed
qed

lemma to_string_inj: "to_string i = to_string j \<Longrightarrow> i = j"
  by (metis parse_nat_to_string)

lemma comma_separated_Cons:
  "comma_separated (x # xs) = x @ (if xs = [] then [] else '', '' @ comma_separated xs)"
  by (cases xs) simp_all

lemma Vector2String_loop_closed:
  "k \<le> n \<Longrightarrow> n \<le> length p \<Longrightarrow>
   Vector2String_loop p (int n) (int k) ss =
     Some (ss @ comma_separated (map fixed6 (drop k (take n p))))"
proof (induction "n - k" arbitrary: k ss)
  case 0
  then have "k = n" by simp
  then show ?case by (subst Vector2String_loop.simps) simp
next
  case (Suc m)
  then have k: "k < n" and kp: "k < length p" by simp_all
  have "k < length (take n p)" using k Suc.prems by simp
  from Cons_nth_drop_Suc [OF this] k
  have d: "drop k (take n p) = p ! k # drop (Suc k) (take n p)" by simp
  have e: "drop (Suc k) (take n p) = [] \<longleftrightarrow> \<not> Suc k < n"
    using Suc.prems by auto
  have m: "m = n - Suc k" using Suc.hyps(2) by simp
  have le: "Suc k \<le> n" using k by simp
  note IH = Suc.hyps(1) [OF m le Suc.prems(2)]
  have i: "int k + 1 = int (Suc k)" by simp
  have c: "int k < int n - 1 \<longleftrightarrow> Suc k < n" by auto
  have "Vector2String_loop p (int n) (int k) ss =
      Vector2String_loop p (int n) (int (Suc k))
        (ss @ fixed6 (p ! k) @ (if Suc k < n then '', '' else ''''))"
    using k kp by (subst Vector2String_loop.simps) (simp only: i c, simp)
  also note IH
  finally show ?case using Suc.prems(2) by (simp add: d comma_separated_Cons e min_def)
qed

lemma Vector2String_take:
  "n \<le> length p \<Longrightarrow>
   Vector2String p (int n) = Some (''['' @ comma_separated (map fixed6 (take n p)) @ '']'')"
  using Vector2String_loop_closed [of 0 n p "''[''"] by (simp add: Vector2String_def)

lemma int_of_size_t_small: "k < 2 ^ 31 \<Longrightarrow> int_of_size_t k = int k"
proof -
  assume a: "k < 2 ^ 31"
  then have "int k < 2147483648" by simp
  then have "int k mod 4294967296 = int k" by (intro mod_pos_pos_trivial) simp_all
  with \<open>int k < 2147483648\<close> show ?thesis by (simp add: int_of_size_t_def Let_def)
qed

subsection \<open>Ingestion\<close>

lemma row_in_block:
  assumes "nb * d2 \<le> length xb" and "i < nb"
  shows "d2 \<le> length (drop (i * d2) xb)"
proof -
  from assms(2) have "Suc i * d2 \<le> nb * d2" by (intro mult_le_mono1) simp
  with assms(1) show ?thesis by simp
qed

lemma Vector2String_row:
  assumes "nb * d2 \<le> length xb" and "i < nb" and "d2 < 2 ^ 31"
  shows "Vector2String (drop (i * d2) xb) (int_of_size_t d2) =
     Some (''['' @ comma_separated (map fixed6 (take d2 (drop (i * d2) xb))) @ '']'')"
  using Vector2String_take [OF row_in_block [OF assms(1,2)]] int_of_size_t_small [OF assms(3)]
  by simp

lemma insert_loop_closed:
  assumes len: "nb * d2 \<le> length xb" and d2: "d2 < 2 ^ 31"
  shows "i \<le> nb \<Longrightarrow>
     insert_loop E xb nb d2 i (state_before E (statement xb d2) s i) tr =
       Inr (tr @ concat (map (row_events E (statement xb d2) s) [i..<nb]),
            state_before E (statement xb d2) s nb)"
proof (induction "nb - i" arbitrary: i tr)
  case 0
  then have "i = nb" by simp
  then show ?case by (subst insert_loop.simps) simp
next
  case (Suc m)
  then have i: "i < nb" by simp
  let ?st = "statement xb d2"
  let ?s = "state_before E ?st s i"
  obtain status rows s' where ex: "E ?s (?st i) = (status, rows, s')"
    by (cases "E ?s (?st i)") auto
  then have s': "s' = state_before E ?st s (Suc i)" and ok: "status = insert_ok E ?st s i"
    by (simp_all add: insert_ok_def)
  have m: "m = nb - Suc i" using Suc.hyps(2) by simp
  have le: "Suc i \<le> nb" using i by simp
  note IH = Suc.hyps(1) [OF m le]
  have v: "insert_sql @ (''['' @ comma_separated (map fixed6 (take d2 (drop (i * d2) xb))) @ '']'')
      @ '' , '' @ to_string i @ '');'' = ?st i"
    by (simp add: statement_def)
  have "insert_loop E xb nb d2 i ?s tr =
      (let sql = ?st i;
           (status, rows, s') = E ?s sql;
           tr' = tr @ [Sql sql] @
             (if \<not> status then [Cerr (''Insert data failed: index = '' @ to_string i)]
              else [])
       in insert_loop E xb nb d2 (i + 1) s' tr')"
    by (subst insert_loop.simps)
      (simp only: i if_True Vector2String_row [OF len i d2] option.case v)
  also have "\<dots> = insert_loop E xb nb d2 (i + 1) s' (tr @ row_events E ?st s i)"
    unfolding Let_def ex split_conv by (simp add: row_events_def ok [symmetric])
  also have "\<dots> = Inr ((tr @ row_events E ?st s i) @
      concat (map (row_events E ?st s) [Suc i..<nb]), state_before E ?st s nb)"
    unfolding s' using IH by simp
  finally show ?case using i by (simp add: upt_conv_Cons)
qed

lemma insert_loop_trace:
  assumes "nb * d2 \<le> length xb" and "d2 < 2 ^ 31"
  shows "insert_loop E xb nb d2 0 s [] =
     Inr (concat (map (row_events E (statement xb d2) s) [0..<nb]),
          state_before E (statement xb d2) s nb)"
  using insert_loop_closed [OF assms, of 0 E s "[]"] by simp

lemma submitted_append: "submitted (a @ b) = submitted a @ submitted b"
  by (induction a rule: submitted.induct) simp_all

lemma logged_append: "logged (a @ b) = logged a @ logged b"
  by (induction a rule: logged.induct) simp_all

lemma submitted_rows:
  "submitted (concat (map (row_events E stmt s) is)) = map stmt is"
  by (induction "is") (simp_all add: submitted_append row_events_def)

lemma logged_rows:
  "logged (concat (map (row_events E stmt s) is)) =
     map (\<lambda>i. ''Insert data failed: index = '' @ to_string i)
       (filter (\<lambda>i. \<not> insert_ok E stmt s i) is)"
  by (induction "is") (simp_all add: logged_append row_events_def)

lemma statement_id_statement: "statement_id (statement xb d2 i) = to_string i"
proof -
  let ?a = "insert_sql @ ''['' @ comma_separated (map fixed6 (take d2 (drop (i * d2) xb))) @ '']'' @ '' ,''"
  have st: "statement xb d2 i = ?a @ '' '' @ to_string i @ '');''"
    by (simp add: statement_def)
  have "drop 2 (rev (statement xb d2 i)) = rev (to_string i) @ CHR '' '' # rev ?a"
    unfolding st by simp
  moreover have "takeWhile isdigit (rev (to_string i) @ CHR '' '' # rev ?a) = rev (to_string i)"
  proof -
    have b: "\<not> isdigit CHR '' ''" by (simp add: isdigit_def)
    have a: "\<forall>c\<in>set (rev (to_string i)). isdigit c" using to_string_digits by simp
    have "takeWhile isdigit (rev (to_string i) @ CHR '' '' # rev ?a) =
        takeWhile isdigit (rev (to_string i))"
      using b by (rule takeWhile_tail)
    also have "\<dots> = rev (to_string i)"
      using a by (simp only: takeWhile_eq_all_conv)
    finally show ?thesis .
  qed
  ultimately show ?thesis by (simp add: statement_id_def)
qed

lemma statement_inj: "statement xb d2 i = statement xb d2 j \<Longrightarrow> i = j"
  using statement_id_statement [of xb d2 i] statement_id_statement [of xb d2 j] to_string_inj
  by simp

lemma pad_6:
  "pad 6 k =
     [digit_char (k div 10 div 10 div 10 div 10 div 10 mod 10),
      digit_char (k div 10 div 10 div 10 div 10 mod 10),
      digit_char (k div 10 div 10 div 10 mod 10),
      digit_char (k div 10 div 10 mod 10),
      digit_char (k div 10 mod 10),
      digit_char (k mod 10)]"
proof -
  have s: "(6 :: nat) = Suc (Suc (Suc (Suc (Suc (Suc 0)))))" by simp
  show ?thesis unfolding s by simp
qed

lemma fixed6_examples:
  "fixed6 0x3F800000 = ''1.000000''" "fixed6 0x40000000 = ''2.000000''"
  "fixed6 0x40400000 = ''3.000000''" "fixed6 0x40800000 = ''4.000000''"
  by (simp_all add: fixed6_def float_sign_def isfinite_def float_exponent_def micros_def
      float_numerator_def float_mantissa_def round_half_even_def to_string.simps pad_6
      digit_char_def)

lemma statement_base2:
  "statement base2 2 0 = ''INSERT INTO t1 VALUES (ARRAY [1.000000, 2.000000] , 0);''"
  "statement base2 2 1 = ''INSERT INTO t1 VALUES (ARRAY [3.000000, 4.000000] , 1);''"
  by (simp_all add: statement_def base2_def insert_sql_def fixed6_examples to_string.simps
      digit_char_def)

lemma state_before_foldl:
  "state_before E stmt s n = foldl (\<lambda>s sql. snd (snd (E s sql))) s (map stmt [0..<n])"
  by (induction n) simp_all

text \<open>
  Claim C8. For a matrix of \<open>nb\<close> rows of \<open>d2\<close> floats the ingestion loop returns, and the
  statements it has submitted are, in this order and once each, those of rows
  \<open>0, \<dots>, nb - 1\<close>: they are the statements of the trace, and the engine is left in the
  state that executing exactly these statements, one after the other, leads to. The
  statement of row \<open>i\<close> is the insert prefix, the literal that \<^verbatim>\<open>Vector2String\<close> renders
  for row \<open>i\<close>, and the identifier \<open>i\<close> in decimal, which can be read back from it;
  statements of different rows differ. (\<open>d2 < 2 ^ 31\<close>: the dimension passes unchanged
  through the \<^verbatim>\<open>int\<close> parameter, as 128 does.) The examples run an engine whose state is
  the list of the statements it has received, on the two vectors of the specification's
  scenario and on two zero vectors of dimension 128.
\<close>

theorem insert_loop_submits_every_row:
  "nb * d2 \<le> length xb \<Longrightarrow> d2 < 2 ^ 31 \<Longrightarrow>
   \<exists>tr. insert_loop E xb nb d2 0 s [] =
          Inr (tr, foldl (\<lambda>s sql. snd (snd (E s sql))) s (map (statement xb d2) [0..<nb]))
     \<and> submitted tr = map (statement xb d2) [0..<nb]
     \<and> (\<forall>i<nb. \<exists>literal.
            Vector2String (drop (i * d2) xb) (int_of_size_t d2) = Some literal
            \<and> statement xb d2 i = insert_sql @ literal @ '' , '' @ to_string i @ '');''
            \<and> parse_nat (statement_id (statement xb d2 i)) = i)
     \<and> (\<forall>i<nb. \<forall>j<nb. i \<noteq> j \<longrightarrow> statement xb d2 i \<noteq> statement xb d2 j)"
proof (intro exI conjI allI impI)
  assume len: "nb * d2 \<le> length xb" and d2: "d2 < 2 ^ 31"
  let ?tr = "concat (map (row_events E (statement xb d2) s) [0..<nb])"
  show "insert_loop E xb nb d2 0 s [] =
      Inr (?tr, foldl (\<lambda>s sql. snd (snd (E s sql))) s (map (statement xb d2) [0..<nb]))"
    using insert_loop_trace [OF len d2, of E s] by (simp only: state_before_foldl)
  show "submitted ?tr = map (statement xb d2) [0..<nb]"
    by (rule submitted_rows)
  fix i assume i: "i < nb"
  let ?l = "''['' @ comma_separated (map fixed6 (take d2 (drop (i * d2) xb))) @ '']''"
  show "Vector2String (drop (i * d2) xb) (int_of_size_t d2) = Some ?l"
    by (rule Vector2String_row [OF len i d2])
  show "statement xb d2 i = insert_sql @ ?l @ '' , '' @ to_string i @ '');''"
    by (simp add: statement_def)
  show "parse_nat (statement_id (statement xb d2 i)) = i"
    by (simp only: statement_id_statement parse_nat_to_string)
  fix j assume "i \<noteq> j"
  then show "statement xb d2 i \<noteq> statement xb d2 j"
    using statement_inj by blast
qed

lemma fixed6_zero: "fixed6 0 = ''0.000000''"
  by (simp add: fixed6_def float_sign_def isfinite_def float_exponent_def micros_def
      float_numerator_def float_mantissa_def round_half_even_def to_string.simps pad_6
      digit_char_def)

lemma statement_zeros:
  "statement (replicate 256 0) 128 0 =
     ''INSERT INTO t1 VALUES (ARRAY ['' @ comma_separated (replicate 128 ''0.000000'') @ ''] , 0);''"
  "statement (replicate 256 0) 128 1 =
     ''INSERT INTO t1 VALUES (ARRAY ['' @ comma_separated (replicate 128 ''0.000000'') @ ''] , 1);''"
  by (simp_all add: statement_def insert_sql_def fixed6_zero to_string.simps digit_char_def)

theorem insert_loop_submits_every_row_witness:
  "insert_loop (\<lambda>s sql. (True, [], s @ [sql])) base2 2 2 0 [] [] =
     Inr ([Sql ''INSERT INTO t1 VALUES (ARRAY [1.000000, 2.000000] , 0);'',
           Sql ''INSERT INTO t1 VALUES (ARRAY [3.000000, 4.000000] , 1);''],
          [''INSERT INTO t1 VALUES (ARRAY [1.000000, 2.000000] , 0);'',
           ''INSERT INTO t1 VALUES (ARRAY [3.000000, 4.000000] , 1);''])
   \<and> (\<exists>tr. insert_loop (\<lambda>s sql. (True, [], s @ [sql])) (replicate 256 0) 2 128 0 [] [] =
          Inr (tr,
            [''INSERT INTO t1 VALUES (ARRAY ['' @ comma_separated (replicate 128 ''0.000000'')
               @ ''] , 0);'',
             ''INSERT INTO t1 VALUES (ARRAY ['' @ comma_separated (replicate 128 ''0.000000'')
               @ ''] , 1);''])
        \<and> submitted tr =
            [''INSERT INTO t1 VALUES (ARRAY ['' @ comma_separated (replicate 128 ''0.000000'')
               @ ''] , 0);'',
             ''INSERT INTO t1 VALUES (ARRAY ['' @ comma_separated (replicate 128 ''0.000000'')
               @ ''] , 1);''])"
proof
  let ?E = "\<lambda>s sql. (True, [] :: string list list, s @ [sql])"
  let ?s0 = "''INSERT INTO t1 VALUES (ARRAY [1.000000, 2.000000] , 0);''"
  let ?s1 = "''INSERT INTO t1 VALUES (ARRAY [3.000000, 4.000000] , 1);''"
  have u: "[0..<2] = [0, 1]" by (simp add: upt_rec)
  have a: "2 * 2 \<le> length base2" by (simp add: base2_def)
  have b: "(2 :: nat) < 2 ^ 31" by simp
  from insert_loop_submits_every_row [OF a b, of ?E "[]"]
  obtain tr where r: "insert_loop ?E base2 2 2 0 [] [] =
      Inr (tr, foldl (\<lambda>s sql. snd (snd (?E s sql))) [] (map (statement base2 2) [0..<2]))"
    and t: "submitted tr = map (statement base2 2) [0..<2]" by blast
  have st: "foldl (\<lambda>s sql. snd (snd (?E s sql))) [] (map (statement base2 2) [0..<2]) = [?s0, ?s1]"
    unfolding u using statement_base2 by simp
  have sub: "submitted tr = [?s0, ?s1]"
    using t unfolding u by (simp only: list.map statement_base2)
  have tr: "tr = [Sql ?s0, Sql ?s1]"
  proof -
    have "insert_loop ?E base2 2 2 0 [] [] =
        Inr (concat (map (row_events ?E (statement base2 2) []) [0..<2]),
             state_before ?E (statement base2 2) [] 2)"
      by (rule insert_loop_trace [OF a b])
    with r have "tr = concat (map (row_events ?E (statement base2 2) []) [0..<2])" by simp
    then show ?thesis unfolding u using statement_base2
      by (simp add: row_events_def insert_ok_def)
  qed
  from r show "insert_loop ?E base2 2 2 0 [] [] = Inr ([Sql ?s0, Sql ?s1], [?s0, ?s1])"
    unfolding st tr .
  let ?z = "replicate 256 (0 :: float32)"
  have a': "2 * 128 \<le> length ?z" by simp
  have b': "(128 :: nat) < 2 ^ 31" by simp
  from insert_loop_submits_every_row [OF a' b', of ?E "[]"]
  obtain tr' where r': "insert_loop ?E ?z 2 128 0 [] [] =
      Inr (tr', foldl (\<lambda>s sql. snd (snd (?E s sql))) [] (map (statement ?z 128) [0..<2]))"
    and t': "submitted tr' = map (statement ?z 128) [0..<2]" by blast
  have st': "foldl (\<lambda>s sql. snd (snd (?E s sql))) [] (map (statement ?z 128) [0..<2]) =
      [statement ?z 128 0, statement ?z 128 1]"
    unfolding u by simp
  have sub': "submitted tr' = [statement ?z 128 0, statement ?z 128 1]"
    using t' unfolding u by (simp only: list.map)
  from r' sub' show "\<exists>tr. insert_loop ?E ?z 2 128 0 [] [] =
          Inr (tr,
            [''INSERT INTO t1 VALUES (ARRAY ['' @ comma_separated (replicate 128 ''0.000000'')
               @ ''] , 0);'',
             ''INSERT INTO t1 VALUES (ARRAY ['' @ comma_separated (replicate 128 ''0.000000'')
               @ ''] , 1);''])
        \<and> submitted tr =
            [''INSERT INTO t1 VALUES (ARRAY ['' @ comma_separated (replicate 128 ''0.000000'')
               @ ''] , 0);'',
             ''INSERT INTO t1 VALUES (ARRAY ['' @ comma_separated (replicate 128 ''0.000000'')
               @ ''] , 1);'']"
    unfolding st' statement_zeros by blast
qed

text \<open>
  Claim C9. Whatever the engine answers, the ingestion loop returns. Its trace is, row by
  row in order, the statement of the row, followed at once by a line on \<^verbatim>\<open>std::cerr\<close>
  that names the row exactly when the insert failed; so a failure at row \<open>i\<close> is logged
  with \<open>i\<close>, the statement of row \<open>i + 1\<close> comes next, and the statements submitted are
  those of all rows, which do not depend on any status.
\<close>

theorem insert_failure_is_logged_and_skipped:
  "nb * d2 \<le> length xb \<Longrightarrow> d2 < 2 ^ 31 \<Longrightarrow>
   \<exists>tr s'. insert_loop E xb nb d2 0 s [] = Inr (tr, s')
     \<and> tr = concat (map (\<lambda>i. Sql (statement xb d2 i) #
                (if insert_ok E (statement xb d2) s i then []
                 else [Cerr (''Insert data failed: index = '' @ to_string i)])) [0..<nb])
     \<and> submitted tr = map (statement xb d2) [0..<nb]
     \<and> logged tr = map (\<lambda>i. ''Insert data failed: index = '' @ to_string i)
                      (filter (\<lambda>i. \<not> insert_ok E (statement xb d2) s i) [0..<nb])"
proof (intro exI conjI)
  assume len: "nb * d2 \<le> length xb" and d2: "d2 < 2 ^ 31"
  let ?tr = "concat (map (row_events E (statement xb d2) s) [0..<nb])"
  show "insert_loop E xb nb d2 0 s [] = Inr (?tr, state_before E (statement xb d2) s nb)"
    by (rule insert_loop_trace [OF len d2])
  show "?tr = concat (map (\<lambda>i. Sql (statement xb d2 i) #
                (if insert_ok E (statement xb d2) s i then []
                 else [Cerr (''Insert data failed: index = '' @ to_string i)])) [0..<nb])"
    by (simp only: row_events_def [abs_def])
  show "submitted ?tr = map (statement xb d2) [0..<nb]"
    by (rule submitted_rows)
  show "logged ?tr = map (\<lambda>i. ''Insert data failed: index = '' @ to_string i)
                      (filter (\<lambda>i. \<not> insert_ok E (statement xb d2) s i) [0..<nb])"
    by (rule logged_rows)
qed

theorem insert_failure_is_logged_and_skipped_witness:
  "\<exists>s'. insert_loop (\<lambda>s sql. (0 < (s :: nat), [], Suc s)) base2 2 2 0 0 [] =
     Inr ([Sql ''INSERT INTO t1 VALUES (ARRAY [1.000000, 2.000000] , 0);'',
           Cerr ''Insert data failed: index = 0'',
           Sql ''INSERT INTO t1 VALUES (ARRAY [3.000000, 4.000000] , 1);''], s')"
proof -
  let ?E = "\<lambda>s sql. (0 < (s :: nat), [] :: string list list, Suc s)"
  have a: "2 * 2 \<le> length base2" by (simp add: base2_def)
  have b: "(2 :: nat) < 2 ^ 31" by simp
  have u: "[0..<2] = [0, Suc 0]" by (simp add: upt_rec)
  have ok0: "\<not> insert_ok ?E (statement base2 2) 0 0" by (simp add: insert_ok_def)
  have ok1: "insert_ok ?E (statement base2 2) 0 (Suc 0)" by (simp add: insert_ok_def)
  have z: "to_string 0 = ''0''" by (simp add: to_string.simps digit_char_def)
  from insert_failure_is_logged_and_skipped [OF a b, of ?E 0]
  obtain tr s' where r: "insert_loop ?E base2 2 2 0 0 [] = Inr (tr, s')"
    and t: "tr = concat (map (\<lambda>i. Sql (statement base2 2 i) #
                (if insert_ok ?E (statement base2 2) 0 i then []
                 else [Cerr (''Insert data failed: index = '' @ to_string i)])) [0..<2])"
    by blast
  from t have "tr = [Sql ''INSERT INTO t1 VALUES (ARRAY [1.000000, 2.000000] , 0);'',
           Cerr ''Insert data failed: index = 0'',
           Sql ''INSERT INTO t1 VALUES (ARRAY [3.000000, 4.000000] , 1);'']"
    unfolding u using statement_base2 by (simp add: ok0 ok1 z)
  with r show ?thesis by blast
qed

subsection \<open>The ground-truth row of a query\<close>

lemma Vector2String_128:
  "128 \<le> length p \<Longrightarrow>
   Vector2String p 128 = Some (''['' @ comma_separated (map fixed6 (take 128 p)) @ '']'')"
  using Vector2String_take [of 128 p] by simp

lemma query_loop_step:
  assumes "i < nq" and "Vector2String (drop (128 * i) p) 128 = Some v"
    and "E s (select_sql @ v @ '' <-> v1 LIMIT 100;'') = (status, res, s')"
    and "id_list res = Inr ids"
    and "AddQueryResult m ids (drop (100 * i) gt) = Some m'"
  shows "query_loop E p nq gt i s m = query_loop E p nq gt (i + 1) s' m'"
  by (subst query_loop.simps)
    (simp only: assms if_True option.case Let_def split_conv sum.case)

lemma AddQueryResult_hd:
  "gt \<noteq> [] \<Longrightarrow>
   AddQueryResult m res gt = Some (scan res (hd gt) 0 (m\<lparr>n_total := n_total m + 1\<rparr>))"
  by (cases gt) (simp_all add: AddQueryResult_def)

lemma stoi_9: "stoi ''9'' = Some 9"
  by (simp add: stoi_def isspace_def isdigit_def parse_nat_def digit_value_def Let_def)

text \<open>
  Claim C3 at a ground truth of row width \<open>k = 200\<close> for two queries, row 0 all 5 and row
  1 all 9, with an engine that answers every query with the single identifier 9. The
  second query is scored against \<^verbatim>\<open>gt[100]\<close>, an entry of row 0, and counts as a miss;
  scored against row 1, which starts at \<^verbatim>\<open>gt[200]\<close>, it is a hit at rank 0.
\<close>

theorem DoANNQuery_row_stride_is_100:
  "DoANNQuery (\<lambda>s sql. (True, [[''9'', ''v'']], s)) () (replicate 256 0) 2
       (replicate 200 5 @ replicate 200 9) =
     Inr (\<lparr>n_1 = 0, n_10 = 0, n_100 = 0, n_total = 2\<rparr>, ())
   \<and> hd (drop (100 * 1) (replicate 200 5 @ replicate 200 (9 :: int))) = 5
   \<and> take 200 (drop (200 * 1) (replicate 200 5 @ replicate 200 (9 :: int))) = replicate 200 9
   \<and> AddQueryResult \<lparr>n_1 = 0, n_10 = 0, n_100 = 0, n_total = 1\<rparr> [9]
         (drop (200 * 1) (replicate 200 5 @ replicate 200 9)) =
       Some \<lparr>n_1 = 1, n_10 = 1, n_100 = 1, n_total = 2\<rparr>"
proof (intro conjI)
  let ?E = "\<lambda>s sql. (True, [[''9'', ''v'']], s :: unit)"
  let ?p = "replicate 256 (0 :: float32)"
  let ?gt = "replicate 200 5 @ replicate 200 (9 :: int)"
  let ?m1 = "\<lparr>n_1 = 0, n_10 = 0, n_100 = 0, n_total = 1\<rparr> :: Metric"
  let ?m2 = "\<lparr>n_1 = 0, n_10 = 0, n_100 = 0, n_total = 2\<rparr> :: Metric"
  have ids: "id_list [[''9'', ''v'']] = Inr [9]" by (simp add: stoi_9)
  have miss: "\<And>m. scan [9] 5 0 m = m" by (rule scan_no_match) simp
  have hit: "\<And>m. scan [9] 9 0 m = count_hit 0 m" by (rule scan_first_match) simp_all
  obtain v0 where v0: "Vector2String (drop (128 * 0) ?p) 128 = Some v0"
    using Vector2String_128 [of "drop (128 * 0) ?p"] by simp
  obtain v1 where v1: "Vector2String (drop (128 * 1) ?p) 128 = Some v1"
    using Vector2String_128 [of "drop (128 * 1) ?p"] by simp
  have a0: "AddQueryResult Metric_init [9] (drop (100 * 0) ?gt) = Some ?m1"
    by (simp add: AddQueryResult_hd miss Metric_init_def)
  have a1: "AddQueryResult ?m1 [9] (drop (100 * 1) ?gt) = Some ?m2"
    by (simp add: AddQueryResult_hd miss)
  have "query_loop ?E ?p 2 ?gt 0 () Metric_init = query_loop ?E ?p 2 ?gt (0 + 1) () ?m1"
    by (rule query_loop_step [OF _ v0 _ ids a0]) simp_all
  also have "\<dots> = query_loop ?E ?p 2 ?gt (1 + 1) () ?m2"
    by (simp only: add_0) (rule query_loop_step [OF _ v1 _ ids a1], simp_all)
  also have "\<dots> = Inr (?m2, ())"
    by (subst query_loop.simps) simp
  finally show "DoANNQuery ?E () ?p 2 ?gt = Inr (?m2, ())"
    by (simp add: DoANNQuery_def)
  show "hd (drop (100 * 1) ?gt) = 5" by simp
  show "take 200 (drop (200 * 1) ?gt) = replicate 200 9" by simp
  show "AddQueryResult ?m1 [9] (drop (200 * 1) ?gt) =
      Some \<lparr>n_1 = 1, n_10 = 1, n_100 = 1, n_total = 2\<rparr>"
    by (simp add: AddQueryResult_hd hit count_hit_fields)
qed

subsection \<open>The order of the counters\<close>

lemma AddQueryResult_counted:
  assumes "counted k m" and "Suc k < 2 ^ 64" and "AddQueryResult m res gt = Some m'"
  shows "counted (Suc k) m'"
proof -
  from assms(3) have "gt \<noteq> []" by (auto simp: AddQueryResult_def)
  from counted_step [OF assms(1,2) this, of res] assms(3) show ?thesis by auto
qed

lemma query_loop_counted:
  "i \<le> nq \<Longrightarrow> nq < 2 ^ 64 \<Longrightarrow> counted i m \<Longrightarrow>
   query_loop E p nq gt i s m = Inr (m', s') \<Longrightarrow> counted nq m'"
proof (induction "nq - i" arbitrary: i s m)
  case 0
  then have "i = nq" by simp
  with "0.prems"(3,4) show ?case by (subst (asm) query_loop.simps) simp
next
  case (Suc k)
  then have i: "i < nq" by simp
  from Suc.prems(4) i obtain v where v: "Vector2String (drop (128 * i) p) 128 = Some v"
    by (subst (asm) query_loop.simps) (auto split: option.splits)
  obtain status res s1 where e: "E s (select_sql @ v @ '' <-> v1 LIMIT 100;'') = (status, res, s1)"
    by (cases "E s (select_sql @ v @ '' <-> v1 LIMIT 100;'')") auto
  from Suc.prems(4) i v e obtain ids where ids: "id_list res = Inr ids"
    by (subst (asm) query_loop.simps) (auto simp: Let_def split: sum.splits)
  from Suc.prems(4) i v e ids obtain m1 where
    m1: "AddQueryResult m ids (drop (100 * i) gt) = Some m1"
    by (subst (asm) query_loop.simps) (auto simp: Let_def split: option.splits)
  have nxt: "query_loop E p nq gt (i + 1) s1 m1 = Inr (m', s')"
    using Suc.prems(4) query_loop_step [where E = E and s = s, OF i v e ids m1] by simp
  have c: "counted (Suc i) m1"
    using Suc.prems(1,2) i by (intro AddQueryResult_counted [OF Suc.prems(3) _ m1]) simp
  have k: "k = nq - (i + 1)" using Suc.hyps(2) by simp
  show ?case
    using Suc.hyps(1) [OF k _ Suc.prems(2) _ nxt] i c by simp
qed

lemma DoANNQuery_counted:
  "nq < 2 ^ 64 \<Longrightarrow> DoANNQuery E s p nq gt = Inr (m, s') \<Longrightarrow> counted nq m"
  unfolding DoANNQuery_def
  by (rule query_loop_counted [of 0]) (simp_all add: counted_def Metric_init_def)

text \<open>
  Claim C6. A \<^verbatim>\<open>Metric\<close> starts with all counters zero and is only ever fed by the loop
  \<^verbatim>\<open>for (size_t i = 0; i < nq; ++i)\<close> of \<^verbatim>\<open>DoANNQuery\<close>, so the number of calls it
  receives is a value of \<^verbatim>\<open>size_t\<close>. After any such sequence of calls of
  \<^verbatim>\<open>AddQueryResult\<close> (each with a ground-truth row that has a first entry) every call
  has returned and \<open>n_1 \<le> n_10 \<le> n_100 \<le> n_total\<close> holds; and the counters of every
  run of \<^verbatim>\<open>DoANNQuery\<close> that returns are in this order.
\<close>

theorem counters_ordered:
  "(length qs = unat (nq :: size_t) \<and> list_all (\<lambda>(res, gt). gt \<noteq> []) qs \<longrightarrow>
      (\<exists>m. AddQueryResults Metric_init qs = Some m \<and> ordered_counters m))
   \<and> (DoANNQuery E s p (unat nq) gt = Inr (m', s') \<longrightarrow> ordered_counters m')"
proof (intro conjI impI)
  have b: "unat nq < 2 ^ 64" using unsigned_less [of nq] by simp
  {
    assume a: "length qs = unat nq \<and> list_all (\<lambda>(res, gt). gt \<noteq> []) qs"
    have "counted 0 Metric_init" by (simp add: counted_def Metric_init_def)
    from counted_run [OF this, of qs] a b
    obtain m where "AddQueryResults Metric_init qs = Some m" "counted (length qs) m" by auto
    then show "\<exists>m. AddQueryResults Metric_init qs = Some m \<and> ordered_counters m"
      using counted_ordered by blast
  }
  {
    assume "DoANNQuery E s p (unat nq) gt = Inr (m', s')"
    from DoANNQuery_counted [OF b this] show "ordered_counters m'"
      by (rule counted_ordered)
  }
qed

theorem counters_ordered_witness:
  "(\<exists>m. AddQueryResults Metric_init [([7, 42, 9], [42, 7, 3]), ([], [42])] = Some m
       \<and> ordered_counters m)
   \<and> DoANNQuery (\<lambda>s sql. (True, [[''9'', ''v'']], s)) () (replicate 256 0) 2
        (replicate 100 9 @ replicate 100 5) =
      Inr (\<lparr>n_1 = 1, n_10 = 1, n_100 = 1, n_total = 2\<rparr>, ())
   \<and> ordered_counters \<lparr>n_1 = 1, n_10 = 1, n_100 = 1, n_total = 2\<rparr>"
proof -
  let ?qs = "[([7, 42, 9], [42, 7, 3]), ([], [42])] :: (int list \<times> int list) list"
  let ?E = "\<lambda>s sql. (True, [[''9'', ''v'']], s :: unit)"
  let ?p = "replicate 256 (0 :: float32)"
  let ?gt = "replicate 100 9 @ replicate 100 (5 :: int)"
  let ?m1 = "\<lparr>n_1 = 1, n_10 = 1, n_100 = 1, n_total = 1\<rparr> :: Metric"
  let ?m2 = "\<lparr>n_1 = 1, n_10 = 1, n_100 = 1, n_total = 2\<rparr> :: Metric"
  have u: "unat (2 :: size_t) = 2" by simp
  have a: "length ?qs = unat (2 :: size_t) \<and> list_all (\<lambda>(res, gt). gt \<noteq> []) ?qs" by simp
  note first = counters_ordered [of ?qs 2, THEN conjunct1, rule_format, OF a]
  have ids: "id_list [[''9'', ''v'']] = Inr [9]" by (simp add: stoi_9)
  have miss: "\<And>m. scan [9] 5 0 m = m" by (rule scan_no_match) simp
  have hit: "\<And>m. scan [9] 9 0 m = count_hit 0 m" by (rule scan_first_match) simp_all
  obtain v0 where v0: "Vector2String (drop (128 * 0) ?p) 128 = Some v0"
    using Vector2String_128 [of "drop (128 * 0) ?p"] by simp
  obtain v1 where v1: "Vector2String (drop (128 * 1) ?p) 128 = Some v1"
    using Vector2String_128 [of "drop (128 * 1) ?p"] by simp
  have a0: "AddQueryResult Metric_init [9] (drop (100 * 0) ?gt) = Some ?m1"
    by (simp add: AddQueryResult_hd hit Metric_init_def count_hit_fields)
  have a1: "AddQueryResult ?m1 [9] (drop (100 * 1) ?gt) = Some ?m2"
    by (simp add: AddQueryResult_hd miss)
  have "query_loop ?E ?p 2 ?gt 0 () Metric_init = query_loop ?E ?p 2 ?gt (0 + 1) () ?m1"
    by (rule query_loop_step [OF _ v0 _ ids a0]) simp_all
  also have "\<dots> = query_loop ?E ?p 2 ?gt (1 + 1) () ?m2"
    by (simp only: add_0) (rule query_loop_step [OF _ v1 _ ids a1], simp_all)
  also have "\<dots> = Inr (?m2, ())"
    by (subst query_loop.simps) simp
  finally have run: "DoANNQuery ?E () ?p (unat (2 :: size_t)) ?gt = Inr (?m2, ())"
    by (simp add: DoANNQuery_def)
  note second = counters_ordered [of _ 2 ?E "()" ?p ?gt ?m2 "()", THEN conjunct2, rule_format, OF run]
  from first run [unfolded u] second show ?thesis by blast
qed

subsection \<open>Rendering and reading back\<close>

lemma round_half_even_bound:
  assumes "0 < b"
  shows "2 * \<bar>int (round_half_even a b) * int b - int a\<bar> \<le> int b"
proof -
  let ?q = "a div b" and ?r = "a mod b"
  have a: "int a = int ?q * int b + int ?r"
    by (metis div_mult_mod_eq of_nat_add of_nat_mult)
  have r: "int ?r < int b" using assms by simp
  consider (lo) "2 * ?r < b" | (hi) "b < 2 * ?r" | (tie) "2 * ?r = b" by linarith
  then show ?thesis
  proof cases
    case lo
    then have "round_half_even a b = ?q" by (simp add: round_half_even_def Let_def)
    then show ?thesis using a lo by simp
  next
    case hi
    then have "round_half_even a b = ?q + 1" by (simp add: round_half_even_def Let_def)
    then have "int (round_half_even a b) * int b - int a = int b - int ?r"
      using a by (simp add: algebra_simps)
    then show ?thesis using hi r by simp
  next
    case tie
    then have "round_half_even a b = ?q \<or> round_half_even a b = ?q + 1"
      by (simp add: round_half_even_def Let_def)
    then show ?thesis
    proof
      assume "round_half_even a b = ?q"
      then show ?thesis using a tie by simp
    next
      assume "round_half_even a b = ?q + 1"
      then have "int (round_half_even a b) * int b - int a = int b - int ?r"
        using a by (simp add: algebra_simps)
      then show ?thesis using tie r by simp
    qed
  qed
qed

lemma close_in_millionths:
  fixes m n B :: real
  assumes "0 < B" and "2 * \<bar>m * B - n * 1000000\<bar> \<le> B"
  shows "\<bar>m / 1000000 - n / B\<bar> \<le> 1 / 2000000"
proof -
  have "m / 1000000 - n / B = (m * B - n * 1000000) / (1000000 * B)"
    using assms(1) by (simp add: field_simps)
  then have "\<bar>m / 1000000 - n / B\<bar> = \<bar>m * B - n * 1000000\<bar> / (1000000 * B)"
    using assms(1) by (simp add: abs_divide abs_mult)
  also have "\<dots> \<le> (B / 2) / (1000000 * B)"
    using assms by (intro divide_right_mono) simp_all
  also have "\<dots> = 1 / 2000000" using assms(1) by simp
  finally show ?thesis .
qed

lemma micros_close:
  "\<bar>real (micros w) / 1000000 - real (float_numerator w) / 2 ^ 149\<bar> \<le> 1 / 2000000"
proof -
  let ?m = "micros w" and ?n = "float_numerator w"
  define b :: nat where "b = 2 ^ 149"
  have b0: "0 < b" by (simp add: b_def)
  have "2 * \<bar>int ?m * int b - int (?n * 1000000)\<bar> \<le> int b"
    unfolding micros_def b_def [symmetric] by (rule round_half_even_bound [OF b0])
  then have "real_of_int (2 * \<bar>int ?m * int b - int (?n * 1000000)\<bar>) \<le> real_of_int (int b)"
    by (simp only: of_int_le_iff)
  then have i: "2 * \<bar>real ?m * real b - real ?n * 1000000\<bar> \<le> real b"
    by simp
  have "\<bar>real ?m / 1000000 - real ?n / real b\<bar> \<le> 1 / 2000000"
    using b0 i by (intro close_in_millionths) simp_all
  moreover have "real b = 2 ^ 149" by (simp only: b_def of_nat_power of_nat_numeral)
  ultimately show ?thesis by (simp only:)
qed

lemma written_value_close:
  "\<bar>written_value w - float_value w\<bar> \<le> 1 / 2000000"
proof -
  have "written_value w - float_value w =
      (if float_sign w then - 1 else 1) *
        (real (micros w) / 1000000 - real (float_numerator w) / 2 ^ 149)"
    by (simp add: written_value_def float_value_def algebra_simps)
  then have "\<bar>written_value w - float_value w\<bar> =
      \<bar>real (micros w) / 1000000 - real (float_numerator w) / 2 ^ 149\<bar>"
    by (simp add: abs_mult)
  then show ?thesis using micros_close [of w] by simp
qed

lemma length_pad: "length (pad w k) = w"
  by (induction w arbitrary: k) simp_all

lemma pad_digits: "c \<in> set (pad w k) \<Longrightarrow> isdigit c"
  by (induction w arbitrary: k) (auto simp: isdigit_digit_char)

lemma parse_nat_pad: "parse_nat (pad w k) = k mod 10 ^ w"
proof (induction w arbitrary: k)
  case 0
  then show ?case by (simp add: parse_nat_def)
next
  case (Suc w)
  have "parse_nat (pad (Suc w) k) = 10 * (k div 10 mod 10 ^ w) + k mod 10"
    by (simp add: parse_nat_snoc Suc.IH digit_value_digit_char)
  also have "\<dots> = k mod 10 ^ Suc w"
    by (simp add: mod_mult2_eq)
  finally show ?case .
qed

lemma not_digit_chars:
  "\<not> isdigit CHR ''.''" "\<not> isdigit CHR ''-''" "\<not> isdigit CHR '',''" "\<not> isdigit CHR '' ''"
  by (simp_all add: isdigit_def)

lemma not_space_chars:
  "\<not> isspace CHR ''-''" "isdigit c \<Longrightarrow> \<not> isspace c" "isspace CHR '' ''"
  by (auto simp: isdigit_def isspace_def)

lemma hd_to_string_digit: "isdigit (hd (to_string k))"
  using to_string_digits [of "hd (to_string k)" k] to_string_not_empty [of k] by simp

lemma digits_then_point:
  assumes "\<forall>c\<in>set ds. isdigit c"
  shows "takeWhile isdigit (ds @ CHR ''.'' # fr) = ds"
    and "dropWhile isdigit (ds @ CHR ''.'' # fr) = CHR ''.'' # fr"
proof -
  have "takeWhile isdigit (ds @ CHR ''.'' # fr) = takeWhile isdigit ds"
    using not_digit_chars(1) by (rule takeWhile_tail)
  also have "\<dots> = ds" using assms by (simp only: takeWhile_eq_all_conv)
  finally show "takeWhile isdigit (ds @ CHR ''.'' # fr) = ds" .
  show "dropWhile isdigit (ds @ CHR ''.'' # fr) = CHR ''.'' # fr"
    using assms not_digit_chars(1) by (simp add: dropWhile_append3 dropWhile_append2)
qed

lemma fixed6_finite:
  "isfinite w \<Longrightarrow> fixed6 w = (if float_sign w then ''-'' else '''') @ fixed6_body w"
  by (simp add: fixed6_def fixed6_body_def)

lemma fixed6_body_parts:
  "takeWhile isdigit (fixed6_body w) = to_string (micros w div 1000000)"
  "dropWhile isdigit (fixed6_body w) = CHR ''.'' # pad 6 (micros w mod 1000000)"
proof -
  have d: "\<forall>c\<in>set (to_string (micros w div 1000000)). isdigit c"
    using to_string_digits by blast
  show "takeWhile isdigit (fixed6_body w) = to_string (micros w div 1000000)"
    unfolding fixed6_body_def by (rule digits_then_point(1) [OF d])
  show "dropWhile isdigit (fixed6_body w) = CHR ''.'' # pad 6 (micros w mod 1000000)"
    unfolding fixed6_body_def by (rule digits_then_point(2) [OF d])
qed

lemma hd_fixed6_body: "isdigit (hd (fixed6_body w))"
  using hd_to_string_digit [of "micros w div 1000000"] to_string_not_empty [of "micros w div 1000000"]
  by (simp add: fixed6_body_def)

lemma fixed6_body_not_empty: "fixed6_body w \<noteq> []"
  by (simp add: fixed6_body_def)

lemma unsigned_part_fixed6:
  assumes "isfinite w"
  shows "unsigned_part (fixed6 w) = fixed6_body w"
    and "fixed6 w \<noteq> []"
    and "hd (fixed6 w) = CHR ''-'' \<longleftrightarrow> float_sign w"
proof -
  have nd: "hd (fixed6_body w) \<noteq> CHR ''-''"
    using hd_fixed6_body [of w] not_digit_chars(2) by metis
  show "unsigned_part (fixed6 w) = fixed6_body w"
    using nd fixed6_body_not_empty [of w]
    by (simp add: fixed6_finite [OF assms] unsigned_part_def)
  show "fixed6 w \<noteq> []"
    using fixed6_body_not_empty [of w] by (simp add: fixed6_finite [OF assms])
  show "hd (fixed6 w) = CHR ''-'' \<longleftrightarrow> float_sign w"
    using nd by (simp add: fixed6_finite [OF assms])
qed

lemma fixed_point_fixed6:
  assumes "isfinite w"
  shows "fixed_point 6 (fixed6 w)"
proof -
  have "list_all isdigit (pad 6 (micros w mod 1000000))"
    using pad_digits by (simp add: list_all_iff)
  then show ?thesis
    unfolding fixed_point_def Let_def unsigned_part_fixed6(1) [OF assms] fixed6_body_parts
    by (simp add: to_string_not_empty length_pad)
qed

lemma parse_fixed_fixed6:
  assumes "isfinite w"
  shows "parse_fixed (fixed6 w) = Some (written_value w)"
proof -
  let ?m = "micros w"
  have fp: "fixed_point (length (pad 6 (?m mod 1000000))) (fixed6 w)"
    using fixed_point_fixed6 [OF assms] by (simp add: length_pad)
  have "real (?m div 1000000) + real (?m mod 1000000) / 1000000 = real ?m / 1000000"
  proof -
    have "real ?m = real (?m div 1000000 * 1000000 + ?m mod 1000000)" by simp
    also have "\<dots> = real (?m div 1000000) * 1000000 + real (?m mod 1000000)"
      by (simp only: of_nat_add of_nat_mult of_nat_numeral)
    finally show ?thesis by (simp add: field_simps)
  qed
  then have v: "(if float_sign w then - 1 else 1) *
      (real (parse_nat (to_string (?m div 1000000))) +
       real (parse_nat (pad 6 (?m mod 1000000))) / 10 ^ length (pad 6 (?m mod 1000000))) =
      written_value w"
    by (simp add: parse_nat_to_string parse_nat_pad length_pad written_value_def)
  show ?thesis
    unfolding parse_fixed_def Let_def unsigned_part_fixed6 [OF assms] fixed6_body_parts list.sel
    using fp v unsigned_part_fixed6(2,3) [OF assms] by simp
qed

lemma fixed6_no_comma: "isfinite w \<Longrightarrow> CHR '','' \<notin> set (fixed6 w)"
proof
  assume f: "isfinite w" and "CHR '','' \<in> set (fixed6 w)"
  then have "CHR '','' \<in> set (to_string (micros w div 1000000))
      \<or> CHR '','' \<in> set (pad 6 (micros w mod 1000000))"
    by (auto simp: fixed6_finite fixed6_body_def split: if_splits)
  then show False using to_string_digits pad_digits not_digit_chars(3) by blast
qed

lemma dropWhile_space_fixed6:
  assumes "isfinite w"
  shows "dropWhile isspace (fixed6 w) = fixed6 w"
    and "dropWhile isspace (CHR '' '' # fixed6 w) = fixed6 w"
proof -
  have "\<not> isspace (hd (fixed6 w))"
  proof (cases "float_sign w")
    case True
    then show ?thesis by (simp add: fixed6_finite [OF assms] not_space_chars)
  next
    case False
    then show ?thesis
      using hd_fixed6_body [of w] by (simp add: fixed6_finite [OF assms] not_space_chars)
  qed
  then show a: "dropWhile isspace (fixed6 w) = fixed6 w"
    using unsigned_part_fixed6(2) [OF assms] by (cases "fixed6 w") simp_all
  then show "dropWhile isspace (CHR '' '' # fixed6 w) = fixed6 w"
    by (simp add: not_space_chars)
qed

lemma split_on_none: "c \<notin> set xs \<Longrightarrow> split_on c xs = [xs]"
  by (induction xs) auto

lemma split_on_append:
  "c \<notin> set xs \<Longrightarrow> split_on c (xs @ c # ys) = xs # split_on c ys"
  by (induction xs) auto

lemma split_comma_separated:
  "xs \<noteq> [] \<Longrightarrow> \<forall>x\<in>set xs. CHR '','' \<notin> set x \<Longrightarrow>
   split_on CHR '','' (comma_separated xs) = hd xs # map ((#) CHR '' '') (tl xs)"
proof (induction xs rule: comma_separated.induct)
  case 1
  then show ?case by simp
next
  case (2 x)
  then show ?case by (simp add: split_on_none)
next
  case (3 x y ys)
  then have IH: "split_on CHR '','' (comma_separated (y # ys)) = y # map ((#) CHR '' '') ys"
    by simp
  have c: "comma_separated (x # y # ys) = x @ CHR '','' # (CHR '' '' # comma_separated (y # ys))"
    by simp
  have nx: "CHR '','' \<notin> set x" using "3.prems"(2) by simp
  have "split_on CHR '','' (comma_separated (x # y # ys)) =
      x # split_on CHR '','' (CHR '' '' # comma_separated (y # ys))"
    unfolding c by (rule split_on_append [OF nx])
  also have "split_on CHR '','' (CHR '' '' # comma_separated (y # ys)) =
      (CHR '' '' # y) # map ((#) CHR '' '') ys"
    by (simp add: IH)
  finally show ?case by simp
qed

lemma those_map_Some: "those (map (\<lambda>x. Some (f x)) xs) = Some (map f xs)"
  by (induction xs) simp_all

lemma comma_separated_not_empty:
  "xs \<noteq> [] \<Longrightarrow> \<forall>x\<in>set xs. x \<noteq> [] \<Longrightarrow> comma_separated xs \<noteq> []"
  by (induction xs rule: comma_separated.induct) simp_all

lemma parse_elements:
  assumes "ws \<noteq> []" and "\<forall>w\<in>set ws. isfinite w"
  shows "those (map (\<lambda>e. parse_fixed (dropWhile isspace e))
           (split_on CHR '','' (comma_separated (map fixed6 ws)))) =
         Some (map written_value ws)"
proof -
  let ?f = "\<lambda>e. parse_fixed (dropWhile isspace e)"
  from assms obtain w ws' where ws: "ws = w # ws'" by (cases ws) auto
  have nc: "\<forall>x\<in>set (map fixed6 ws). CHR '','' \<notin> set x"
    using assms(2) fixed6_no_comma by auto
  have "split_on CHR '','' (comma_separated (map fixed6 ws)) =
      fixed6 w # map ((#) CHR '' '') (map fixed6 ws')"
    using split_comma_separated [OF _ nc] by (simp add: ws)
  moreover have "?f (fixed6 w) = Some (written_value w)"
    using assms(2) by (simp add: ws dropWhile_space_fixed6 parse_fixed_fixed6)
  moreover have "map ?f (map ((#) CHR '' '') (map fixed6 ws')) =
      map (\<lambda>x. Some (written_value x)) ws'"
    using assms(2)
    by (simp add: ws dropWhile_space_fixed6 parse_fixed_fixed6 not_space_chars(3))
  ultimately have "map ?f (split_on CHR '','' (comma_separated (map fixed6 ws))) =
      map (\<lambda>x. Some (written_value x)) ws"
    by (simp add: ws)
  then show ?thesis by (simp only: those_map_Some)
qed

lemma parse_literal_rendered:
  assumes "\<forall>w\<in>set ws. isfinite w"
  shows "parse_literal (''['' @ comma_separated (map fixed6 ws) @ '']'') =
     Some (map written_value ws)"
proof (cases "ws = []")
  case True
  then show ?thesis by (simp add: parse_literal_def)
next
  case False
  let ?inner = "comma_separated (map fixed6 ws)"
  have ne: "?inner \<noteq> []"
    using False assms unsigned_part_fixed6(2) by (intro comma_separated_not_empty) auto
  have b: "butlast (tl (''['' @ ?inner @ '']'')) = ?inner"
    by (simp add: butlast_append)
  have "parse_literal (''['' @ ?inner @ '']'') =
      those (map (\<lambda>e. parse_fixed (dropWhile isspace e)) (split_on CHR '','' ?inner))"
    unfolding parse_literal_def b Let_def using ne by simp
  with parse_elements [OF False assms] show ?thesis by simp
qed

text \<open>
  Claim C7. For \<open>n\<close> finite floats at \<open>p\<close>, \<^verbatim>\<open>Vector2String(p, n)\<close> returns the elements
  formatted one by one, joined by a comma and a space, between brackets; each element is a
  fixed-point decimal with exactly six digits after the point; and reading the string back
  gives \<open>n\<close> numbers, the \<open>i\<close>-th within half a millionth of the value of \<open>p[i]\<close>.
\<close>

theorem Vector2String_round_trip:
  "n \<le> length p \<Longrightarrow> list_all isfinite (take n p) \<Longrightarrow>
   \<exists>str qs. Vector2String p (int n) = Some str
     \<and> str = ''['' @ comma_separated (map fixed6 (take n p)) @ '']''
     \<and> (\<forall>i<n. fixed_point 6 (fixed6 (p ! i)))
     \<and> parse_literal str = Some qs \<and> length qs = n
     \<and> (\<forall>i<n. \<bar>qs ! i - float_value (p ! i)\<bar> \<le> 1 / 2000000)"
proof (intro exI conjI allI impI)
  assume n: "n \<le> length p" and fin: "list_all isfinite (take n p)"
  let ?ws = "take n p"
  have f: "\<forall>w\<in>set ?ws. isfinite w" using fin by (simp add: list_all_iff)
  have nth: "\<And>i. i < n \<Longrightarrow> ?ws ! i = p ! i" by simp
  have fi: "\<And>i. i < n \<Longrightarrow> isfinite (p ! i)"
    using f n by (metis nth length_take min.absorb2 nth_mem)
  show "Vector2String p (int n) = Some (''['' @ comma_separated (map fixed6 ?ws) @ '']'')"
    by (rule Vector2String_take [OF n])
  show "''['' @ comma_separated (map fixed6 ?ws) @ '']'' =
      ''['' @ comma_separated (map fixed6 ?ws) @ '']''" ..
  show "parse_literal (''['' @ comma_separated (map fixed6 ?ws) @ '']'') =
      Some (map written_value ?ws)"
    by (rule parse_literal_rendered [OF f])
  show "length (map written_value ?ws) = n" using n by simp
  fix i assume i: "i < n"
  show "fixed_point 6 (fixed6 (p ! i))" by (rule fixed_point_fixed6 [OF fi [OF i]])
  have "map written_value ?ws ! i = written_value (p ! i)" using i n by simp
  then show "\<bar>map written_value ?ws ! i - float_value (p ! i)\<bar> \<le> 1 / 2000000"
    using written_value_close [of "p ! i"] by simp
qed

lemma fixed6_two_and_a_half: "fixed6 0x40200000 = ''2.500000''"
  by (simp add: fixed6_def float_sign_def isfinite_def float_exponent_def micros_def
      float_numerator_def float_mantissa_def round_half_even_def to_string.simps pad_6
      digit_char_def)

theorem Vector2String_round_trip_witness:
  "\<exists>qs. Vector2String [0x3F800000, 0x40200000] 2 = Some ''[1.000000, 2.500000]''
      \<and> fixed_point 6 ''1.000000'' \<and> fixed_point 6 ''2.500000''
      \<and> parse_literal ''[1.000000, 2.500000]'' = Some qs \<and> length qs = 2
      \<and> \<bar>qs ! 0 - 1\<bar> \<le> 1 / 2000000 \<and> \<bar>qs ! 1 - 5 / 2\<bar> \<le> 1 / 2000000"
proof -
  let ?p = "[0x3F800000, 0x40200000] :: float32 list"
  have a: "2 \<le> length ?p" by simp
  have b: "list_all isfinite (take 2 ?p)"
    by (simp add: isfinite_def float_exponent_def)
  have v: "float_value 0x3F800000 = 1" "float_value 0x40200000 = 5 / 2"
    by (simp_all add: float_value_def float_sign_def float_numerator_def float_exponent_def
        float_mantissa_def)
  have s: "''['' @ comma_separated (map fixed6 (take 2 ?p)) @ '']'' = ''[1.000000, 2.500000]''"
    by (simp add: fixed6_examples fixed6_two_and_a_half)
  from Vector2String_round_trip [OF a b]
  obtain str qs where r: "Vector2String ?p (int 2) = Some str"
    and str: "str = ''['' @ comma_separated (map fixed6 (take 2 ?p)) @ '']''"
    and fp: "\<forall>i<2. fixed_point 6 (fixed6 (?p ! i))"
    and q: "parse_literal str = Some qs" "length qs = 2"
    and c: "\<forall>i<2. \<bar>qs ! i - float_value (?p ! i)\<bar> \<le> 1 / 2000000"
    by blast
  from fp [rule_format, of 0] fp [rule_format, of 1]
  have f: "fixed_point 6 ''1.000000''" "fixed_point 6 ''2.500000''"
    by (simp_all add: fixed6_examples fixed6_two_and_a_half)
  from c [rule_format, of 0] c [rule_format, of 1] v
  have d: "\<bar>qs ! 0 - 1\<bar> \<le> 1 / 2000000" "\<bar>qs ! 1 - 5 / 2\<bar> \<le> 1 / 2000000"
    by simp_all
  have str2: "str = ''[1.000000, 2.500000]''" using str s by (simp only:)
  have i2: "int 2 = 2" by simp
  from r have r2: "Vector2String ?p 2 = Some ''[1.000000, 2.500000]''"
    unfolding str2 i2 .
  from q(1) have q2: "parse_literal ''[1.000000, 2.500000]'' = Some qs"
    unfolding str2 .
  from r2 q2 f d q(2) show ?thesis by blast
qed

end
